theory Spec2Isabelle
  imports Main
begin

section \<open>Data model of db_engine.py\<close>

text \<open>
  The two enumerations of the source.
\<close>

datatype LockType = UNLOCKED | READ_LOCK | WRITE_LOCK

datatype TransactionState = ACTIVE | ABORTED | WAITING | COMMITTED

text \<open>
  A \<open>Lock\<close> object. Transactions are referred to by their id: \<open>Transaction.__eq__\<close>
  compares ids, and within one schedule \<open>initiate_transaction\<close> creates at most one
  object per id. \<open>read_locked_by\<close> and \<open>waiting_transactions\<close> are Python lists
  (order and duplicates are kept).
\<close>

record Lock =
  item :: string
  type :: LockType
  read_locked_by :: "int list"
  waiting_transactions :: "int list"
  write_locked_by :: "int option"

text \<open>
  A \<open>Transaction\<close> object. \<open>locked_resources\<close> is a Python set of item names; it is
  kept as a list without repetitions (\<open>set_add\<close> below), and every loop over it goes
  through a parameter \<open>ord\<close> that gives the order in which the set is traversed, since
  Python leaves that order open.
\<close>

record Transaction =
  waiting_ops :: "(string \<times> string) list"
  locked_resources :: "string list"
  state :: TransactionState
  timestamp :: int

datatype key = Id int | Item string

datatype py_error = KeyError key | AttributeError | IndexError | ValueError

text \<open>
  The engine: the store of \<open>Transaction\<close> objects (addressed by id), the keys of
  \<open>TransactionManager.transaction_table\<close>, the store of \<open>Lock\<close> objects (addressed by
  allocation number; a \<open>Lock\<close> replaced in the table stays reachable from a caller that
  still holds it), \<open>LockManager.lock_table\<close> from item to the address of its current
  \<open>Lock\<close>, and the class counter \<open>Transaction.timestamp\<close>.
\<close>

record db =
  txns :: "int \<Rightarrow> Transaction"
  transaction_table :: "int set"
  locks :: "nat \<Rightarrow> Lock"
  next_lock :: nat
  lock_table :: "string \<rightharpoonup> nat"
  clock :: int

text \<open>
  A call either runs out of fuel (\<open>None\<close>), raises (\<open>Some (Inl e)\<close>) or returns
  (\<open>Some (Inr x)\<close>).
\<close>

type_synonym 'a res = "(py_error + 'a) option"

definition res_bind :: "'a res \<Rightarrow> ('a \<Rightarrow> 'b res) \<Rightarrow> 'b res" where
  "res_bind m f = (case m of None \<Rightarrow> None | Some (Inl e) \<Rightarrow> Some (Inl e) | Some (Inr x) \<Rightarrow> f x)"

definition new_Lock :: "string \<Rightarrow> Lock" where
  "new_Lock i = \<lparr>item = i, type = UNLOCKED, read_locked_by = [],
     waiting_transactions = [], write_locked_by = None\<rparr>"

definition new_Transaction :: "int \<Rightarrow> Transaction" where
  "new_Transaction ts = \<lparr>waiting_ops = [], locked_resources = [], state = ACTIVE, timestamp = ts\<rparr>"

definition upd_lock :: "nat \<Rightarrow> (Lock \<Rightarrow> Lock) \<Rightarrow> db \<Rightarrow> db" where
  "upd_lock a f s = s\<lparr>locks := (locks s)(a := f (locks s a))\<rparr>"

definition upd_txn :: "int \<Rightarrow> (Transaction \<Rightarrow> Transaction) \<Rightarrow> db \<Rightarrow> db" where
  "upd_txn t f s = s\<lparr>txns := (txns s)(t := f (txns s t))\<rparr>"

definition set_add :: "string \<Rightarrow> string list \<Rightarrow> string list" where
  "set_add i xs = (if i \<in> set xs then xs else xs @ [i])"

text \<open>\<open>self.lock_table[item] = lock\<close> for a freshly built \<open>Lock\<close>.\<close>

definition install :: "string \<Rightarrow> Lock \<Rightarrow> db \<Rightarrow> db" where
  "install i l s = s\<lparr>locks := (locks s)(next_lock s := l),
     next_lock := Suc (next_lock s),
     lock_table := (lock_table s)(i \<mapsto> next_lock s)\<rparr>"

section \<open>LockManager.unlock_item\<close>

text \<open>
  \<open>txn == lock.write_locked_by\<close> is \<open>Transaction.__eq__\<close>, which reads \<open>other.id\<close>: on a
  write lock without holder it raises AttributeError.
\<close>

definition unlock_item :: "string \<Rightarrow> int \<Rightarrow> db \<Rightarrow> py_error + (db \<times> bool)" where
  "unlock_item i t s =
     (case lock_table s i of
        None \<Rightarrow> Inr (s, False)
      | Some a \<Rightarrow>
          let lock = locks s a in
          if type lock = READ_LOCK \<and> t \<in> set (read_locked_by lock) then
            let s' = upd_lock a (\<lambda>l. l\<lparr>read_locked_by := remove1 t (read_locked_by l)\<rparr>) s;
                s'' = (if read_locked_by (locks s' a) = []
                       then upd_lock a (\<lambda>l. l\<lparr>type := UNLOCKED\<rparr>) s' else s')
            in Inr (s'', type (locks s'' a) = UNLOCKED)
          else if type lock = WRITE_LOCK then
            (case write_locked_by lock of
               None \<Rightarrow> Inl AttributeError
             | Some h \<Rightarrow>
                 if t = h then
                   let s' = upd_lock a (\<lambda>l. l\<lparr>write_locked_by := None, type := UNLOCKED\<rparr>) s
                   in Inr (s', type (locks s' a) = UNLOCKED)
                 else Inr (s, type lock = UNLOCKED))
          else Inr (s, type lock = UNLOCKED))"

text \<open>
  The first loop of \<open>commit\<close> and \<open>abort\<close>: unlock every resource of the list, collecting
  those for which \<open>unlock_item\<close> answered True.
\<close>

fun unlock_all :: "string list \<Rightarrow> int \<Rightarrow> db \<Rightarrow> string list \<Rightarrow> py_error + (db \<times> string list)" where
  "unlock_all [] t s acc = Inr (s, acc)"
| "unlock_all (r # rs) t s acc =
     (case unlock_item r t s of
        Inl e \<Rightarrow> Inl e
      | Inr (s', b) \<Rightarrow> unlock_all rs t s' (if b then acc @ [r] else acc))"

section \<open>Lock acquisition, commit, abort and restart\<close>

text \<open>
  These methods call each other (\<open>get_read_lock\<close> and \<open>get_write_lock\<close> call
  \<open>engine.abort\<close>, which calls \<open>restart\<close>, which replays reads, writes and commits), so
  they are one recursive family. Every call spends one unit of fuel.

  \<open>scan_read_holders\<close> is the \<open>for locking_txn in lock.read_locked_by\<close> loop of
  \<open>get_write_lock\<close>: Python's list iterator keeps an index into the live list, so the
  list is read again from the lock object at every step, after the aborts of earlier steps.

  \<open>restart_waiters\<close> is the last loop of \<open>commit\<close> and of \<open>abort\<close>.
  \<open>restart_loop\<close> is the \<open>while\<close> loop of \<open>restart\<close>.
\<close>

function (sequential) get_read_lock :: "(string list \<Rightarrow> string list) \<Rightarrow> nat \<Rightarrow> string \<Rightarrow> int \<Rightarrow> db \<Rightarrow> (db \<times> bool) res"
and get_write_lock :: "(string list \<Rightarrow> string list) \<Rightarrow> nat \<Rightarrow> string \<Rightarrow> int \<Rightarrow> db \<Rightarrow> (db \<times> bool) res"
and scan_read_holders :: "(string list \<Rightarrow> string list) \<Rightarrow> nat \<Rightarrow> nat \<Rightarrow> int \<Rightarrow> nat \<Rightarrow> db \<Rightarrow> db res"
and read_item :: "(string list \<Rightarrow> string list) \<Rightarrow> nat \<Rightarrow> string \<Rightarrow> int \<Rightarrow> db \<Rightarrow> (db \<times> bool) res"
and write_item :: "(string list \<Rightarrow> string list) \<Rightarrow> nat \<Rightarrow> string \<Rightarrow> int \<Rightarrow> db \<Rightarrow> (db \<times> bool) res"
and commit :: "(string list \<Rightarrow> string list) \<Rightarrow> nat \<Rightarrow> int \<Rightarrow> db \<Rightarrow> (db \<times> bool) res"
and abort :: "(string list \<Rightarrow> string list) \<Rightarrow> nat \<Rightarrow> int \<Rightarrow> db \<Rightarrow> (db \<times> bool) res"
and restart_waiters :: "(string list \<Rightarrow> string list) \<Rightarrow> nat \<Rightarrow> string list \<Rightarrow> db \<Rightarrow> db res"
and restart :: "(string list \<Rightarrow> string list) \<Rightarrow> nat \<Rightarrow> int \<Rightarrow> db \<Rightarrow> (db \<times> bool) res"
and restart_loop :: "(string list \<Rightarrow> string list) \<Rightarrow> nat \<Rightarrow> int \<Rightarrow> db \<Rightarrow> (db \<times> bool) res"
where
  "get_read_lock ord 0 i t s = None"
| "get_read_lock ord (Suc n) i t s =
     (let fresh = Some (Inr (install i ((new_Lock i)\<lparr>type := READ_LOCK, read_locked_by := [t]\<rparr>) s, True))
      in case lock_table s i of
        None \<Rightarrow> fresh
      | Some a \<Rightarrow>
          if type (locks s a) = UNLOCKED then fresh
          else if type (locks s a) = READ_LOCK then
            Some (Inr (upd_lock a (\<lambda>l. l\<lparr>read_locked_by := read_locked_by l @ [t]\<rparr>) s, True))
          else
            (case write_locked_by (locks s a) of
               None \<Rightarrow> Some (Inl AttributeError)
             | Some h \<Rightarrow>
                 if timestamp (txns s h) < timestamp (txns s t) then
                   Some (Inr (upd_lock a
                     (\<lambda>l. l\<lparr>waiting_transactions := waiting_transactions l @ [t]\<rparr>) s, False))
                 else
                   res_bind (abort ord n h s) (\<lambda>(s1, _).
                     Some (Inr (upd_lock a
                       (\<lambda>l. l\<lparr>write_locked_by := None, type := READ_LOCK,
                               read_locked_by := read_locked_by l @ [t]\<rparr>) s1, True)))))"
| "get_write_lock ord 0 i t s = None"
| "get_write_lock ord (Suc n) i t s =
     (let fresh = Some (Inr (install i ((new_Lock i)\<lparr>write_locked_by := Some t, type := WRITE_LOCK\<rparr>) s, True))
      in case lock_table s i of
        None \<Rightarrow> fresh
      | Some a \<Rightarrow>
          if type (locks s a) = UNLOCKED then fresh
          else if type (locks s a) = READ_LOCK then
            res_bind (scan_read_holders ord n a t 0 s) (\<lambda>s1.
              let rl = read_locked_by (locks s1 a) in
              if rl = [] then
                Some (Inr (upd_lock a (\<lambda>l. l\<lparr>write_locked_by := Some t, type := WRITE_LOCK\<rparr>) s1, True))
              else if length rl = 1 \<and> rl ! 0 = t then
                Some (Inr (upd_lock a
                  (\<lambda>l. l\<lparr>write_locked_by := Some t, read_locked_by := [], type := WRITE_LOCK\<rparr>) s1, True))
              else
                Some (Inr (upd_lock a
                  (\<lambda>l. l\<lparr>waiting_transactions := waiting_transactions l @ [t]\<rparr>) s1, False)))
          else
            (case write_locked_by (locks s a) of
               None \<Rightarrow> Some (Inl AttributeError)
             | Some h \<Rightarrow>
                 if timestamp (txns s h) < timestamp (txns s t) then
                   Some (Inr (upd_lock a
                     (\<lambda>l. l\<lparr>waiting_transactions := waiting_transactions l @ [t]\<rparr>) s, False))
                 else
                   res_bind (abort ord n h s) (\<lambda>(s1, _).
                     Some (Inr (upd_lock a (\<lambda>l. l\<lparr>write_locked_by := Some t\<rparr>) s1, True)))))"
| "scan_read_holders ord 0 a t k s = None"
| "scan_read_holders ord (Suc n) a t k s =
     (let rl = read_locked_by (locks s a) in
      if k < length rl then
        let h = rl ! k in
        if h = t then scan_read_holders ord n a t (Suc k) s
        else if timestamp (txns s h) > timestamp (txns s t) then
          res_bind (abort ord n h s) (\<lambda>(s1, _). scan_read_holders ord n a t (Suc k) s1)
        else Some (Inr s)
      else Some (Inr s))"
| "read_item ord 0 i t s = None"
| "read_item ord (Suc n) i t s =
     (if state (txns s t) \<noteq> ACTIVE then Some (Inr (s, False))
      else res_bind (get_read_lock ord n i t s) (\<lambda>(s1, granted).
        if \<not> granted then
          Some (Inr (upd_txn t (\<lambda>x. x\<lparr>waiting_ops := waiting_ops x @ [(''r'', i)],
                                      state := WAITING\<rparr>) s1, False))
        else
          Some (Inr (upd_txn t (\<lambda>x. x\<lparr>locked_resources := set_add i (locked_resources x)\<rparr>) s1, True))))"
| "write_item ord 0 i t s = None"
| "write_item ord (Suc n) i t s =
     (if state (txns s t) \<noteq> ACTIVE then Some (Inr (s, False))
      else res_bind (get_write_lock ord n i t s) (\<lambda>(s1, granted).
        if \<not> granted then
          Some (Inr (upd_txn t (\<lambda>x. x\<lparr>waiting_ops := waiting_ops x @ [(''w'', i)],
                                      state := WAITING\<rparr>) s1, False))
        else
          Some (Inr (upd_txn t (\<lambda>x. x\<lparr>locked_resources := set_add i (locked_resources x)\<rparr>) s1, True))))"
| "commit ord 0 t s = None"
| "commit ord (Suc n) t s =
     (if state (txns s t) \<noteq> ACTIVE then
        Some (Inr (upd_txn t (\<lambda>x. x\<lparr>waiting_ops := waiting_ops x @ [(''c'', '''')]\<rparr>) s, False))
      else
        (case unlock_all (ord (locked_resources (txns s t))) t s [] of
           Inl e \<Rightarrow> Some (Inl e)
         | Inr (s1, unlocked_resources) \<Rightarrow>
             let s2 = upd_txn t (\<lambda>x. x\<lparr>state := COMMITTED\<rparr>) s1 in
             res_bind (restart_waiters ord n (ord (locked_resources (txns s2 t))) s2) (\<lambda>s3.
               Some (Inr (upd_txn t (\<lambda>x. x\<lparr>locked_resources := []\<rparr>) s3, True)))))"
| "abort ord 0 t s = None"
| "abort ord (Suc n) t s =
     (if state (txns s t) \<noteq> ACTIVE \<and> state (txns s t) \<noteq> WAITING then Some (Inr (s, False))
      else
        (case unlock_all (ord (locked_resources (txns s t))) t s [] of
           Inl e \<Rightarrow> Some (Inl e)
         | Inr (s1, unlocked_resources) \<Rightarrow>
             let s2 = upd_txn t (\<lambda>x. x\<lparr>state := ABORTED, locked_resources := [],
                                       waiting_ops := []\<rparr>) s1 in
             res_bind (restart_waiters ord n unlocked_resources s2) (\<lambda>s3.
               Some (Inr (s3, True)))))"
| "restart_waiters ord 0 rs s = None"
| "restart_waiters ord (Suc n) [] s = Some (Inr s)"
| "restart_waiters ord (Suc n) (r # rs) s =
     (case lock_table s r of
        None \<Rightarrow> Some (Inl (KeyError (Item r)))
      | Some a \<Rightarrow>
          (case waiting_transactions (locks s a) of
             [] \<Rightarrow> restart_waiters ord n rs s
           | w # ws \<Rightarrow>
               res_bind (restart ord n w (upd_lock a (\<lambda>l. l\<lparr>waiting_transactions := ws\<rparr>) s))
                 (\<lambda>(s1, _). restart_waiters ord n rs s1)))"
| "restart ord 0 t s = None"
| "restart ord (Suc n) t s =
     (if state (txns s t) \<noteq> WAITING then Some (Inr (s, False))
      else restart_loop ord n t (upd_txn t (\<lambda>x. x\<lparr>state := ACTIVE\<rparr>) s))"
| "restart_loop ord 0 t s = None"
| "restart_loop ord (Suc n) t s =
     (if state (txns s t) = ACTIVE \<and> waiting_ops (txns s t) \<noteq> [] then
        (case waiting_ops (txns s t) of
           [] \<Rightarrow> Some (Inr (s, True))
         | (op, i) # rest \<Rightarrow>
             let s0 = upd_txn t (\<lambda>x. x\<lparr>waiting_ops := rest\<rparr>) s in
             res_bind
               (if op = ''r'' then read_item ord n i t s0
                else if op = ''w'' then write_item ord n i t s0
                else if op = ''c'' then commit ord n t s0
                else Some (Inr (s0, False)))
               (\<lambda>(s1, _).
                 if state (txns s1 t) = WAITING then
                   Some (Inr (upd_txn t (\<lambda>x. x\<lparr>waiting_ops := (op, i) # waiting_ops x\<rparr>) s1, False))
                 else restart_loop ord n t s1))
      else Some (Inr (s, True)))"
  by pat_completeness simp_all

text \<open>Every call passes on less fuel than it got.\<close>

termination
  by (relation "measure (case_sum (case_sum (case_sum (\<lambda>p. fst (snd p)) (\<lambda>p. fst (snd p))) (case_sum (\<lambda>p. fst (snd p)) (case_sum (\<lambda>p. fst (snd p)) (\<lambda>p. fst (snd p)))))
     (case_sum (case_sum (\<lambda>p. fst (snd p)) (\<lambda>p. fst (snd p))) (case_sum (\<lambda>p. fst (snd p)) (case_sum (\<lambda>p. fst (snd p)) (\<lambda>p. fst (snd p))))))") simp_all

section \<open>The driver: initiate_transaction, execute_operation and the loop of main\<close>

definition initiate_transaction :: "int \<Rightarrow> db \<Rightarrow> db \<times> bool" where
  "initiate_transaction i s =
     (if i \<in> transaction_table s then (s, False)
      else (s\<lparr>txns := (txns s)(i := new_Transaction (clock s + 1)),
              transaction_table := insert i (transaction_table s),
              clock := clock s + 1\<rparr>, True))"

text \<open>\<open>int(operation[1])\<close> on a one-character string: a decimal digit or ValueError.\<close>

definition digit :: "char \<Rightarrow> int option" where
  "digit c = (let k = (of_char c :: nat) in if 48 \<le> k \<and> k \<le> 57 then Some (int k - 48) else None)"

definition execute_operation :: "(string list \<Rightarrow> string list) \<Rightarrow> nat \<Rightarrow> string \<Rightarrow> db \<Rightarrow> db res" where
  "execute_operation ord n operation s =
     (case operation of
        [] \<Rightarrow> Some (Inl IndexError)
      | [_] \<Rightarrow> Some (Inl IndexError)
      | op # d # _ \<Rightarrow>
          (case digit d of
             None \<Rightarrow> Some (Inl ValueError)
           | Some i \<Rightarrow>
               if op = CHR ''r'' \<or> op = CHR ''w'' then
                 (if length operation < 4 then Some (Inl IndexError)
                  else if i \<notin> transaction_table s then Some (Inl (KeyError (Id i)))
                  else if op = CHR ''r''
                    then res_bind (read_item ord n [operation ! 3] i s) (\<lambda>(s1, _). Some (Inr s1))
                    else res_bind (write_item ord n [operation ! 3] i s) (\<lambda>(s1, _). Some (Inr s1)))
               else if op = CHR ''b'' then Some (Inr (fst (initiate_transaction i s)))
               else if op = CHR ''e'' then
                 (if i \<notin> transaction_table s then Some (Inl (KeyError (Id i)))
                  else res_bind (commit ord n i s) (\<lambda>(s1, _). Some (Inr s1)))
               else Some (Inr s)))"

text \<open>
  The loop of \<open>main\<close> over one schedule; empty lines are skipped. Each operation gets the
  whole fuel \<open>n\<close>.
\<close>

fun run_schedule :: "(string list \<Rightarrow> string list) \<Rightarrow> nat \<Rightarrow> string list \<Rightarrow> db \<Rightarrow> db res" where
  "run_schedule ord n [] s = Some (Inr s)"
| "run_schedule ord n (operation # rest) s =
     (if operation = [] then run_schedule ord n rest s
      else res_bind (execute_operation ord n operation s) (\<lambda>s1. run_schedule ord n rest s1))"

text \<open>
  The state at the start of a schedule: both tables empty. \<open>c\<close> is the value of the class
  counter \<open>Transaction.timestamp\<close>, which \<open>main\<close> does not reset between schedules.
\<close>

definition empty_db :: "int \<Rightarrow> db" where
  "empty_db c = \<lparr>txns = (\<lambda>_. new_Transaction 0), transaction_table = {},
     locks = (\<lambda>_. new_Lock ''''), next_lock = 0, lock_table = Map.empty, clock = c\<rparr>"

section \<open>Observing a state\<close>

text \<open>The \<open>Lock\<close> that the lock table currently holds for an item.\<close>

definition lock_of :: "db \<Rightarrow> string \<Rightarrow> Lock option" where
  "lock_of s i = map_option (locks s) (lock_table s i)"

text \<open>The transactions a \<open>Lock\<close> names as holders: its read holders and its write holder.\<close>

definition holders :: "Lock \<Rightarrow> int list" where
  "holders l = read_locked_by l @ (case write_locked_by l of None \<Rightarrow> [] | Some h \<Rightarrow> [h])"

text \<open>What \<open>f\<close> sees in the state a run ends in; a run that raises or does not end shows as such.\<close>

definition observe :: "(db \<Rightarrow> 'a) \<Rightarrow> db res \<Rightarrow> 'a res" where
  "observe f r = res_bind r (\<lambda>s. Some (Inr (f s)))"

text \<open>
  Every waiter of the item's lock is strictly younger than every holder of that lock.
\<close>

definition waiters_younger_than_holders :: "db \<Rightarrow> string \<Rightarrow> bool" where
  "waiters_younger_than_holders s i =
     (case lock_of s i of
        None \<Rightarrow> True
      | Some l \<Rightarrow> list_all (\<lambda>w. list_all (\<lambda>h. timestamp (txns s w) > timestamp (txns s h)) (holders l))
                   (waiting_transactions l))"

text \<open>
  Every item in the held resources of transaction \<open>t\<close> has \<open>t\<close> among the holders of its
  current lock.
\<close>

definition holds_what_it_lists :: "db \<Rightarrow> int \<Rightarrow> bool" where
  "holds_what_it_lists s t =
     list_all (\<lambda>i. case lock_of s i of None \<Rightarrow> False | Some l \<Rightarrow> t \<in> set (holders l))
       (locked_resources (txns s t))"

text \<open>\<open>lock.waiting_transactions.append(txn)\<close> on the \<open>Lock\<close> at address \<open>a\<close>.\<close>

definition enqueue :: "nat \<Rightarrow> int \<Rightarrow> db \<Rightarrow> db" where
  "enqueue a t s = upd_lock a (\<lambda>l. l\<lparr>waiting_transactions := waiting_transactions l @ [t]\<rparr>) s"

section \<open>Predicates used in the proofs\<close>

text \<open>
  A transaction is terminal once it is COMMITTED or ABORTED. \<open>frame s s'\<close> says that the
  step from \<open>s\<close> to \<open>s'\<close> leaves every transaction that was terminal in \<open>s\<close> as it was;
  \<open>frame_but t\<close> excepts the transaction \<open>t\<close>.
\<close>

definition terminal :: "Transaction \<Rightarrow> bool" where
  "terminal x = (state x = COMMITTED \<or> state x = ABORTED)"

definition frame :: "db \<Rightarrow> db \<Rightarrow> bool" where
  "frame s s' = (\<forall>u. terminal (txns s u) \<longrightarrow> txns s' u = txns s u)"

definition frame_but :: "int \<Rightarrow> db \<Rightarrow> db \<Rightarrow> bool" where
  "frame_but t s s' = (\<forall>u. u \<noteq> t \<and> terminal (txns s u) \<longrightarrow> txns s' u = txns s u)"

text \<open>
  Every item in the held resources of any transaction is a key of the lock table. \<open>grows\<close>
  adds that the lock table has lost no key.
\<close>

definition held_in_lock_table :: "db \<Rightarrow> bool" where
  "held_in_lock_table s = (\<forall>t. set (locked_resources (txns s t)) \<subseteq> dom (lock_table s))"

definition grows :: "db \<Rightarrow> db \<Rightarrow> bool" where
  "grows s s' = (held_in_lock_table s' \<and> dom (lock_table s) \<subseteq> dom (lock_table s'))"

text \<open>
  What a call may answer from a state in which \<open>held_in_lock_table\<close> holds: if it raises,
  the exception is the AttributeError of a write lock without holder (never a KeyError),
  and if it returns, the new state \<open>grows\<close> from the old one. For the two lock requests a
  granted lock moreover has its item in the lock table. \<open>safe_step\<close> is the same for the
  driver, whose own lookups in the transaction table may raise KeyError on an id, and whose
  parsing may raise IndexError or ValueError.
\<close>

definition safe :: "db \<Rightarrow> py_error + db \<times> bool \<Rightarrow> bool" where
  "safe s r = (case r of Inl e \<Rightarrow> e = AttributeError | Inr (s', b) \<Rightarrow> grows s s')"

definition safe_lock :: "string \<Rightarrow> db \<Rightarrow> py_error + db \<times> bool \<Rightarrow> bool" where
  "safe_lock i s r = (case r of Inl e \<Rightarrow> e = AttributeError
     | Inr (s', b) \<Rightarrow> grows s s' \<and> (b \<longrightarrow> i \<in> dom (lock_table s')))"

definition safe_db :: "db \<Rightarrow> py_error + db \<Rightarrow> bool" where
  "safe_db s r = (case r of Inl e \<Rightarrow> e = AttributeError | Inr s' \<Rightarrow> grows s s')"

definition safe_step :: "db \<Rightarrow> py_error + db \<Rightarrow> bool" where
  "safe_step s r = (case r of Inl e \<Rightarrow> (\<forall>x. e \<noteq> KeyError (Item x)) | Inr s' \<Rightarrow> grows s s')"

section \<open>The state a schedule ends in\<close>

text \<open>
  The state a schedule ends in, started from empty tables with the counter at 0, in
  insertion order of the held resources (and the empty tables, should the run not end in a
  state).
\<close>

definition state_after :: "string list \<Rightarrow> db" where
  "state_after ops =
     (case run_schedule (\<lambda>xs. xs) 30 ops (empty_db 0) of Some (Inr s) \<Rightarrow> s | _ \<Rightarrow> empty_db 0)"

section \<open>Basic facts\<close>

lemma upd_lock_fields [simp]:
  "txns (upd_lock a f s) = txns s"
  "transaction_table (upd_lock a f s) = transaction_table s"
  "locks (upd_lock a f s) = (locks s)(a := f (locks s a))"
  "next_lock (upd_lock a f s) = next_lock s"
  "lock_table (upd_lock a f s) = lock_table s"
  "clock (upd_lock a f s) = clock s"
  by (simp_all add: upd_lock_def)

lemma upd_txn_fields [simp]:
  "txns (upd_txn t f s) = (txns s)(t := f (txns s t))"
  "transaction_table (upd_txn t f s) = transaction_table s"
  "locks (upd_txn t f s) = locks s"
  "next_lock (upd_txn t f s) = next_lock s"
  "lock_table (upd_txn t f s) = lock_table s"
  "clock (upd_txn t f s) = clock s"
  by (simp_all add: upd_txn_def)

lemma install_fields [simp]:
  "txns (install i l s) = txns s"
  "transaction_table (install i l s) = transaction_table s"
  "locks (install i l s) = (locks s)(next_lock s := l)"
  "next_lock (install i l s) = Suc (next_lock s)"
  "lock_table (install i l s) = (lock_table s)(i \<mapsto> next_lock s)"
  "clock (install i l s) = clock s"
  by (simp_all add: install_def)

lemma set_set_add [simp]: "set (set_add i xs) = insert i (set xs)"
  by (auto simp: set_add_def)

lemma res_bind_Inr:
  "res_bind m f = Some (Inr y) \<longleftrightarrow> (\<exists>x. m = Some (Inr x) \<and> f x = Some (Inr y))"
  by (auto simp: res_bind_def split: option.splits sum.splits)

lemma res_bindE:
  assumes "res_bind m f = Some r"
  obtains (raised) e where "m = Some (Inl e)" "r = Inl e"
        | (returned) x where "m = Some (Inr x)" "f x = Some r"
  using assms by (auto simp: res_bind_def split: option.splits sum.splits)

text \<open>Unlocking touches lock objects only, and answers True only for items of the lock table.\<close>

lemma unlock_item_keeps:
  "unlock_item i t s = Inr (s', b) \<Longrightarrow>
     txns s' = txns s \<and> lock_table s' = lock_table s \<and> transaction_table s' = transaction_table s"
  by (auto simp: unlock_item_def Let_def split: option.splits if_splits)

lemma unlock_item_True:
  "unlock_item i t s = Inr (s', True) \<Longrightarrow> i \<in> dom (lock_table s)"
  by (auto simp: unlock_item_def split: option.splits)

lemma unlock_item_error: "unlock_item i t s = Inl e \<Longrightarrow> e = AttributeError"
  by (auto simp: unlock_item_def Let_def split: option.splits if_splits)

lemma unlock_all_keeps:
  "unlock_all rs t s acc = Inr (s', us) \<Longrightarrow>
     txns s' = txns s \<and> lock_table s' = lock_table s \<and> transaction_table s' = transaction_table s
     \<and> set us \<subseteq> set acc \<union> (set rs \<inter> dom (lock_table s))"
proof (induction rs arbitrary: s acc)
  case Nil
  then show ?case by simp
next
  case (Cons r rs)
  from Cons.prems obtain s1 b where
    u: "unlock_item r t s = Inr (s1, b)" and
    rest: "unlock_all rs t s1 (if b then acc @ [r] else acc) = Inr (s', us)"
    by (auto split: sum.splits)
  note k = unlock_item_keeps [OF u]
  note ih = Cons.IH [OF rest]
  show ?case
  proof (cases b)
    case True
    with u have "r \<in> dom (lock_table s)" by (simp add: unlock_item_True)
    with ih k True show ?thesis by auto
  next
    case False
    with ih k show ?thesis by auto
  qed
qed

lemma unlock_all_error: "unlock_all rs t s acc = Inl e \<Longrightarrow> e = AttributeError"
  by (induction rs arbitrary: s acc) (auto split: sum.splits dest: unlock_item_error)

section \<open>More fuel does not change an answer\<close>

text \<open>
  Fuel only decides whether a call is followed to its end: a call that answers with some
  fuel gives the same answer with any larger fuel. So an answer computed with one fuel is
  the answer of the code.
\<close>

lemma res_bind_mono:
  assumes "res_bind m k = Some r"
    and "\<And>x. m = Some x \<Longrightarrow> m' = Some x"
    and "\<And>y. m = Some (Inr y) \<Longrightarrow> k y = Some r \<Longrightarrow> k' y = Some r"
  shows "res_bind m' k' = Some r"
  using assms by (cases m) (auto simp: res_bind_def split: sum.splits)

lemmas family_simps =
  get_read_lock.simps get_write_lock.simps scan_read_holders.simps read_item.simps
  write_item.simps commit.simps abort.simps restart_waiters.simps restart.simps
  restart_loop.simps

lemma fuel_family:
  "(\<forall>i u s r. get_read_lock ord n i u s = Some r \<longrightarrow> get_read_lock ord (Suc n) i u s = Some r)
 \<and> (\<forall>i u s r. get_write_lock ord n i u s = Some r \<longrightarrow> get_write_lock ord (Suc n) i u s = Some r)
 \<and> (\<forall>a u k s r. scan_read_holders ord n a u k s = Some r \<longrightarrow> scan_read_holders ord (Suc n) a u k s = Some r)
 \<and> (\<forall>i u s r. read_item ord n i u s = Some r \<longrightarrow> read_item ord (Suc n) i u s = Some r)
 \<and> (\<forall>i u s r. write_item ord n i u s = Some r \<longrightarrow> write_item ord (Suc n) i u s = Some r)
 \<and> (\<forall>u s r. commit ord n u s = Some r \<longrightarrow> commit ord (Suc n) u s = Some r)
 \<and> (\<forall>u s r. abort ord n u s = Some r \<longrightarrow> abort ord (Suc n) u s = Some r)
 \<and> (\<forall>rs s r. restart_waiters ord n rs s = Some r \<longrightarrow> restart_waiters ord (Suc n) rs s = Some r)
 \<and> (\<forall>u s r. restart ord n u s = Some r \<longrightarrow> restart ord (Suc n) u s = Some r)
 \<and> (\<forall>u s r. restart_loop ord n u s = Some r \<longrightarrow> restart_loop ord (Suc n) u s = Some r)"
proof (induction n)
  case 0
  show ?case by simp
next
  case (Suc n)
  have ih_grl: "\<And>i u s r. get_read_lock ord n i u s = Some r \<Longrightarrow> get_read_lock ord (Suc n) i u s = Some r"
    using Suc.IH by fast
  have ih_gwl: "\<And>i u s r. get_write_lock ord n i u s = Some r \<Longrightarrow> get_write_lock ord (Suc n) i u s = Some r"
    using Suc.IH by fast
  have ih_scan: "\<And>a u k s r. scan_read_holders ord n a u k s = Some r \<Longrightarrow> scan_read_holders ord (Suc n) a u k s = Some r"
    using Suc.IH by fast
  have ih_read: "\<And>i u s r. read_item ord n i u s = Some r \<Longrightarrow> read_item ord (Suc n) i u s = Some r"
    using Suc.IH by fast
  have ih_write: "\<And>i u s r. write_item ord n i u s = Some r \<Longrightarrow> write_item ord (Suc n) i u s = Some r"
    using Suc.IH by fast
  have ih_commit: "\<And>u s r. commit ord n u s = Some r \<Longrightarrow> commit ord (Suc n) u s = Some r"
    using Suc.IH by fast
  have ih_abort: "\<And>u s r. abort ord n u s = Some r \<Longrightarrow> abort ord (Suc n) u s = Some r"
    using Suc.IH by fast
  have ih_rw: "\<And>rs s r. restart_waiters ord n rs s = Some r \<Longrightarrow> restart_waiters ord (Suc n) rs s = Some r"
    using Suc.IH by fast
  have ih_restart: "\<And>u s r. restart ord n u s = Some r \<Longrightarrow> restart ord (Suc n) u s = Some r"
    using Suc.IH by fast
  have ih_loop: "\<And>u s r. restart_loop ord n u s = Some r \<Longrightarrow> restart_loop ord (Suc n) u s = Some r"
    using Suc.IH by fast
  have grl: "get_read_lock ord (Suc (Suc n)) i u s = Some r"
    if "get_read_lock ord (Suc n) i u s = Some r" for i u s r
    using that
    by (subst get_read_lock.simps, subst (asm) get_read_lock.simps)
       (auto simp: Let_def simp del: family_simps split: option.splits if_splits elim!: res_bind_mono intro: ih_abort)
  have gwl: "get_write_lock ord (Suc (Suc n)) i u s = Some r"
    if "get_write_lock ord (Suc n) i u s = Some r" for i u s r
    using that
    by (subst get_write_lock.simps, subst (asm) get_write_lock.simps)
       (auto simp: Let_def simp del: family_simps split: option.splits if_splits elim!: res_bind_mono intro: ih_abort ih_scan)
  have scan: "scan_read_holders ord (Suc (Suc n)) a u k s = Some r"
    if "scan_read_holders ord (Suc n) a u k s = Some r" for a u k s r
    using that
    by (subst scan_read_holders.simps, subst (asm) scan_read_holders.simps)
       (auto simp: Let_def simp del: family_simps split: option.splits if_splits prod.splits
             elim!: res_bind_mono intro: ih_abort ih_scan)
  have rd: "read_item ord (Suc (Suc n)) i u s = Some r"
    if "read_item ord (Suc n) i u s = Some r" for i u s r
    using that
    by (subst read_item.simps, subst (asm) read_item.simps)
       (auto simp: Let_def simp del: family_simps split: if_splits elim!: res_bind_mono intro: ih_grl)
  have wr: "write_item ord (Suc (Suc n)) i u s = Some r"
    if "write_item ord (Suc n) i u s = Some r" for i u s r
    using that
    by (subst write_item.simps, subst (asm) write_item.simps)
       (auto simp: Let_def simp del: family_simps split: if_splits elim!: res_bind_mono intro: ih_gwl)
  have cm: "commit ord (Suc (Suc n)) u s = Some r"
    if "commit ord (Suc n) u s = Some r" for u s r
    using that
    by (subst commit.simps, subst (asm) commit.simps)
       (auto simp: Let_def simp del: family_simps split: if_splits sum.splits elim!: res_bind_mono intro: ih_rw)
  have ab: "abort ord (Suc (Suc n)) u s = Some r"
    if "abort ord (Suc n) u s = Some r" for u s r
    using that
    by (subst abort.simps, subst (asm) abort.simps)
       (auto simp: Let_def simp del: family_simps split: if_splits sum.splits elim!: res_bind_mono intro: ih_rw)
  have rw: "restart_waiters ord (Suc (Suc n)) rs s = Some r"
    if "restart_waiters ord (Suc n) rs s = Some r" for rs s r
  proof (cases rs)
    case Nil
    with that show ?thesis by simp
  next
    case (Cons x xs)
    from that have "restart_waiters ord (Suc n) (x # xs) s = Some r" unfolding Cons .
    then have "restart_waiters ord (Suc (Suc n)) (x # xs) s = Some r"
      by (subst restart_waiters.simps, subst (asm) restart_waiters.simps)
         (auto simp del: family_simps split: option.splits list.splits
               elim!: res_bind_mono intro: ih_rw ih_restart)
    then show ?thesis unfolding Cons .
  qed
  have rs: "restart ord (Suc (Suc n)) u s = Some r"
    if "restart ord (Suc n) u s = Some r" for u s r
    using that
    by (subst restart.simps, subst (asm) restart.simps)
       (auto simp del: family_simps split: if_splits intro: ih_loop)
  have lp: "restart_loop ord (Suc (Suc n)) u s = Some r"
    if "restart_loop ord (Suc n) u s = Some r" for u s r
    using that
    by (subst restart_loop.simps, subst (asm) restart_loop.simps)
       (auto simp: Let_def simp del: family_simps split: if_splits list.splits prod.splits
             elim!: res_bind_mono intro: ih_read ih_write ih_commit ih_loop)
  show ?case
    by (intro conjI allI impI) (erule grl gwl scan rd wr cm ab rw rs lp)+
qed

lemmas fuel_read_item =
  fuel_family [THEN conjunct2, THEN conjunct2, THEN conjunct2, THEN conjunct1, rule_format]
lemmas fuel_write_item =
  fuel_family [THEN conjunct2, THEN conjunct2, THEN conjunct2, THEN conjunct2, THEN conjunct1, rule_format]
lemmas fuel_commit =
  fuel_family [THEN conjunct2, THEN conjunct2, THEN conjunct2, THEN conjunct2, THEN conjunct2,
    THEN conjunct1, rule_format]

lemma read_item_more_fuel:
  "read_item ord n i u s = Some r \<Longrightarrow> read_item ord (n + k) i u s = Some r"
  by (induction k) (simp_all add: fuel_read_item del: family_simps)

lemma write_item_more_fuel:
  "write_item ord n i u s = Some r \<Longrightarrow> write_item ord (n + k) i u s = Some r"
  by (induction k) (simp_all add: fuel_write_item del: family_simps)

lemma commit_more_fuel:
  "commit ord n u s = Some r \<Longrightarrow> commit ord (n + k) u s = Some r"
  by (induction k) (simp_all add: fuel_commit del: family_simps)

lemma execute_operation_more_fuel:
  assumes "execute_operation ord n operation s = Some r"
  shows "execute_operation ord (n + k) operation s = Some r"
  using assms unfolding execute_operation_def
  by (auto split: list.splits option.splits if_splits
           elim!: res_bind_mono intro: read_item_more_fuel write_item_more_fuel commit_more_fuel)

lemma run_schedule_more_fuel:
  "run_schedule ord n ops s = Some r \<Longrightarrow> run_schedule ord (n + k) ops s = Some r"
proof (induction ops arbitrary: s)
  case Nil
  then show ?case by simp
next
  case (Cons operation rest)
  then show ?case
    by (auto elim!: res_bind_mono intro: execute_operation_more_fuel)
qed

section \<open>Terminal transactions are left alone\<close>

lemma live_not_terminal:
  "state x = ACTIVE \<Longrightarrow> \<not> terminal x"
  "state x = WAITING \<Longrightarrow> \<not> terminal x"
  by (simp_all add: terminal_def)

lemma frame_refl: "frame s s"
  by (simp add: frame_def)

lemma frame_trans: "frame s s1 \<Longrightarrow> frame s1 s2 \<Longrightarrow> frame s s2"
  by (simp add: frame_def)

lemma frame_same_txns: "txns s1 = txns s \<Longrightarrow> frame s s1"
  by (simp add: frame_def)

lemma frame_upd_lock: "frame s s1 \<Longrightarrow> frame s (upd_lock a f s1)"
  by (simp add: frame_def)

lemma frame_install: "frame s s1 \<Longrightarrow> frame s (install i l s1)"
  by (simp add: frame_def)

lemma frame_upd_txn: "\<not> terminal (txns s t) \<Longrightarrow> frame s s1 \<Longrightarrow> frame s (upd_txn t f s1)"
  by (auto simp: frame_def)

lemma frame_imp_but: "frame s s1 \<Longrightarrow> frame_but t s s1"
  by (simp add: frame_def frame_but_def)

lemma frame_but_live: "\<not> terminal (txns s t) \<Longrightarrow> frame_but t s s1 \<Longrightarrow> frame s s1"
  by (auto simp: frame_def frame_but_def)


text \<open>
  By induction on the fuel, for the whole family at once: no call changes a transaction
  that is terminal when the call starts, except \<open>commit\<close> on its own transaction (which
  appends the commit marker even to a terminal transaction).
\<close>

lemma frame_family:
  "(\<forall>i t s s' b. get_read_lock ord n i t s = Some (Inr (s', b)) \<longrightarrow> frame s s')
 \<and> (\<forall>i t s s' b. get_write_lock ord n i t s = Some (Inr (s', b)) \<longrightarrow> frame s s')
 \<and> (\<forall>a t k s s'. scan_read_holders ord n a t k s = Some (Inr s') \<longrightarrow> frame s s')
 \<and> (\<forall>i t s s' b. read_item ord n i t s = Some (Inr (s', b)) \<longrightarrow> frame s s')
 \<and> (\<forall>i t s s' b. write_item ord n i t s = Some (Inr (s', b)) \<longrightarrow> frame s s')
 \<and> (\<forall>t s s' b. commit ord n t s = Some (Inr (s', b)) \<longrightarrow> frame_but t s s')
 \<and> (\<forall>t s s' b. abort ord n t s = Some (Inr (s', b)) \<longrightarrow> frame s s')
 \<and> (\<forall>rs s s'. restart_waiters ord n rs s = Some (Inr s') \<longrightarrow> frame s s')
 \<and> (\<forall>t s s' b. restart ord n t s = Some (Inr (s', b)) \<longrightarrow> frame s s')
 \<and> (\<forall>t s s' b. restart_loop ord n t s = Some (Inr (s', b)) \<longrightarrow> frame s s')"
proof (induction n)
  case 0
  show ?case by simp
next
  case (Suc n)
  have ih_grl: "\<And>i t s s' b. get_read_lock ord n i t s = Some (Inr (s', b)) \<Longrightarrow> frame s s'"
    using Suc.IH by fast
  have ih_gwl: "\<And>i t s s' b. get_write_lock ord n i t s = Some (Inr (s', b)) \<Longrightarrow> frame s s'"
    using Suc.IH by fast
  have ih_scan: "\<And>a t k s s'. scan_read_holders ord n a t k s = Some (Inr s') \<Longrightarrow> frame s s'"
    using Suc.IH by fast
  have ih_read: "\<And>i t s s' b. read_item ord n i t s = Some (Inr (s', b)) \<Longrightarrow> frame s s'"
    using Suc.IH by fast
  have ih_write: "\<And>i t s s' b. write_item ord n i t s = Some (Inr (s', b)) \<Longrightarrow> frame s s'"
    using Suc.IH by fast
  have ih_commit: "\<And>t s s' b. commit ord n t s = Some (Inr (s', b)) \<Longrightarrow> frame_but t s s'"
    using Suc.IH by fast
  have ih_abort: "\<And>t s s' b. abort ord n t s = Some (Inr (s', b)) \<Longrightarrow> frame s s'"
    using Suc.IH by fast
  have ih_rw: "\<And>rs s s'. restart_waiters ord n rs s = Some (Inr s') \<Longrightarrow> frame s s'"
    using Suc.IH by fast
  have ih_restart: "\<And>t s s' b. restart ord n t s = Some (Inr (s', b)) \<Longrightarrow> frame s s'"
    using Suc.IH by fast
  have ih_loop: "\<And>t s s' b. restart_loop ord n t s = Some (Inr (s', b)) \<Longrightarrow> frame s s'"
    using Suc.IH by fast
  have grl: "frame s s'" if "get_read_lock ord (Suc n) i t s = Some (Inr (s', b))" for i t s s' b
    using that
    by (auto simp: Let_def res_bind_Inr split: option.splits if_splits
             intro!: frame_install frame_upd_lock frame_refl dest!: ih_abort)
  have gwl: "frame s s'" if "get_write_lock ord (Suc n) i t s = Some (Inr (s', b))" for i t s s' b
    using that
    by (auto simp: Let_def res_bind_Inr split: option.splits if_splits
             intro!: frame_install frame_upd_lock frame_refl dest!: ih_abort ih_scan)
  have scan: "frame s s'" if "scan_read_holders ord (Suc n) a t k s = Some (Inr s')" for a t k s s'
    using that
    by (auto simp: Let_def res_bind_Inr split: option.splits if_splits
             intro: frame_refl frame_trans dest!: ih_abort ih_scan)
  have rd: "frame s s'" if "read_item ord (Suc n) i t s = Some (Inr (s', b))" for i t s s' b
    using that
    by (auto simp: Let_def res_bind_Inr live_not_terminal frame_refl split: option.splits if_splits
             intro: frame_upd_txn dest!: ih_grl)
  have wr: "frame s s'" if "write_item ord (Suc n) i t s = Some (Inr (s', b))" for i t s s' b
    using that
    by (auto simp: Let_def res_bind_Inr live_not_terminal frame_refl split: option.splits if_splits
             intro: frame_upd_txn dest!: ih_gwl)
  have cm: "frame_but t s s'" if c: "commit ord (Suc n) t s = Some (Inr (s', b))" for t s s' b
  proof (cases "state (txns s t) = ACTIVE")
    case False
    with c show ?thesis by (auto simp: frame_but_def)
  next
    case True
    with c obtain s1 us s3 where
      u: "unlock_all (ord (locked_resources (txns s t))) t s [] = Inr (s1, us)" and
      w: "restart_waiters ord n
            (ord (locked_resources (txns (upd_txn t (\<lambda>x. x\<lparr>state := COMMITTED\<rparr>) s1) t)))
            (upd_txn t (\<lambda>x. x\<lparr>state := COMMITTED\<rparr>) s1) = Some (Inr s3)" and
      r: "s' = upd_txn t (\<lambda>x. x\<lparr>locked_resources := []\<rparr>) s3"
      by (auto simp: Let_def res_bind_Inr split: sum.splits)
    have "frame s s1" using unlock_all_keeps [OF u] by (simp add: frame_same_txns)
    then have "frame s (upd_txn t (\<lambda>x. x\<lparr>state := COMMITTED\<rparr>) s1)"
      using True by (intro frame_upd_txn live_not_terminal)
    then have "frame s s3" using ih_rw [OF w] by (rule frame_trans)
    then have "frame s s'" unfolding r using True by (intro frame_upd_txn live_not_terminal)
    then show ?thesis by (rule frame_imp_but)
  qed
  have ab: "frame s s'" if c: "abort ord (Suc n) t s = Some (Inr (s', b))" for t s s' b
  proof (cases "state (txns s t) \<noteq> ACTIVE \<and> state (txns s t) \<noteq> WAITING")
    case True
    with c show ?thesis by (auto simp: frame_refl)
  next
    case False
    then have live: "\<not> terminal (txns s t)" by (auto simp: terminal_def)
    from False c obtain s1 us s3 where
      u: "unlock_all (ord (locked_resources (txns s t))) t s [] = Inr (s1, us)" and
      w: "restart_waiters ord n us
            (upd_txn t (\<lambda>x. x\<lparr>state := ABORTED, locked_resources := [], waiting_ops := []\<rparr>) s1)
          = Some (Inr s3)" and
      r: "s' = s3"
      by (auto simp: Let_def res_bind_Inr split: sum.splits)
    have "frame s s1" using unlock_all_keeps [OF u] by (simp add: frame_same_txns)
    then have "frame s (upd_txn t (\<lambda>x. x\<lparr>state := ABORTED, locked_resources := [], waiting_ops := []\<rparr>) s1)"
      using live by (intro frame_upd_txn)
    then show ?thesis unfolding r using ih_rw [OF w] by (rule frame_trans)
  qed
  have rw: "frame s s'" if "restart_waiters ord (Suc n) rs s = Some (Inr s')" for rs s s'
    using that
    by (cases rs)
       (auto simp: res_bind_Inr split: option.splits list.splits
             intro: frame_refl frame_trans frame_upd_lock dest!: ih_rw ih_restart)
  have rs: "frame s s'" if c: "restart ord (Suc n) t s = Some (Inr (s', b))" for t s s' b
  proof (cases "state (txns s t) = WAITING")
    case False
    with c show ?thesis by (auto simp: frame_refl)
  next
    case True
    with c have "frame (upd_txn t (\<lambda>x. x\<lparr>state := ACTIVE\<rparr>) s) s'"
      by (auto dest: ih_loop)
    moreover have "frame s (upd_txn t (\<lambda>x. x\<lparr>state := ACTIVE\<rparr>) s)"
      using True by (intro frame_upd_txn live_not_terminal frame_refl)
    ultimately show ?thesis by (blast intro: frame_trans)
  qed
  have lp: "frame s s'" if c: "restart_loop ord (Suc n) t s = Some (Inr (s', b))" for t s s' b
  proof (cases "state (txns s t) = ACTIVE \<and> waiting_ops (txns s t) \<noteq> []")
    case False
    with c show ?thesis by (auto simp: frame_refl)
  next
    case True
    then obtain op i rest where ops: "waiting_ops (txns s t) = (op, i) # rest"
      by (cases "waiting_ops (txns s t)") auto
    let ?s0 = "upd_txn t (\<lambda>x. x\<lparr>waiting_ops := rest\<rparr>) s"
    have live: "\<not> terminal (txns s t)" using True by (simp add: live_not_terminal)
    have live0: "\<not> terminal (txns ?s0 t)" using True by (simp add: terminal_def)
    have f0: "frame s ?s0" using live by (intro frame_upd_txn frame_refl)
    from c True ops obtain s1 b1 where
      step: "(if op = ''r'' then read_item ord n i t ?s0
              else if op = ''w'' then write_item ord n i t ?s0
              else if op = ''c'' then commit ord n t ?s0
              else Some (Inr (?s0, False))) = Some (Inr (s1, b1))" and
      after: "(if state (txns s1 t) = WAITING
               then Some (Inr (upd_txn t (\<lambda>x. x\<lparr>waiting_ops := (op, i) # waiting_ops x\<rparr>) s1, False))
               else restart_loop ord n t s1) = Some (Inr (s', b))"
      by (auto simp: Let_def res_bind_Inr)
    have fb: "frame_but t ?s0 s1 \<Longrightarrow> frame ?s0 s1"
      using live0 by (rule frame_but_live)
    have "frame ?s0 s1"
      using step
      by (auto split: if_splits dest: ih_read ih_write ih_commit intro: fb simp: frame_refl)
    with f0 have f1: "frame s s1" by (rule frame_trans)
    show ?thesis
    proof (cases "state (txns s1 t) = WAITING")
      case True
      with after have "s' = upd_txn t (\<lambda>x. x\<lparr>waiting_ops := (op, i) # waiting_ops x\<rparr>) s1"
        by auto
      then show ?thesis using f1 live by (simp add: frame_upd_txn)
    next
      case False
      with after have "frame s1 s'" by (auto dest: ih_loop)
      with f1 show ?thesis by (rule frame_trans)
    qed
  qed
  show ?case
    using grl gwl scan rd wr cm ab rw rs lp by blast
qed

lemmas frame_get_read_lock = frame_family [THEN conjunct1, rule_format]

lemmas frame_get_write_lock = frame_family [THEN conjunct2, THEN conjunct1, rule_format]

lemmas frame_scan = frame_family [THEN conjunct2, THEN conjunct2, THEN conjunct1, rule_format]

lemmas frame_read_item = frame_family [THEN conjunct2, THEN conjunct2, THEN conjunct2, THEN conjunct1, rule_format]

lemmas frame_write_item = frame_family [THEN conjunct2, THEN conjunct2, THEN conjunct2, THEN conjunct2, THEN conjunct1, rule_format]

lemmas frame_commit = frame_family [THEN conjunct2, THEN conjunct2, THEN conjunct2, THEN conjunct2, THEN conjunct2, THEN conjunct1, rule_format]

lemmas frame_abort = frame_family [THEN conjunct2, THEN conjunct2, THEN conjunct2, THEN conjunct2, THEN conjunct2, THEN conjunct2, THEN conjunct1, rule_format]


lemmas frame_restart = frame_family [THEN conjunct2, THEN conjunct2, THEN conjunct2, THEN conjunct2, THEN conjunct2, THEN conjunct2, THEN conjunct2, THEN conjunct2, THEN conjunct1, rule_format]

lemmas frame_restart_loop = frame_family [THEN conjunct2, THEN conjunct2, THEN conjunct2, THEN conjunct2, THEN conjunct2, THEN conjunct2, THEN conjunct2, THEN conjunct2, THEN conjunct2, rule_format]




section \<open>Held items stay in the lock table\<close>

lemma safe_simps [simp]:
  "safe s (Inl e) = (e = AttributeError)"
  "safe s (Inr (s', b)) = grows s s'"
  "safe_lock i s (Inl e) = (e = AttributeError)"
  "safe_lock i s (Inr (s', b)) = (grows s s' \<and> (b \<longrightarrow> i \<in> dom (lock_table s')))"
  "safe_db s (Inl e) = (e = AttributeError)"
  "safe_db s (Inr s') = grows s s'"
  by (simp_all add: safe_def safe_lock_def safe_db_def)

lemma safe_step_simps [simp]:
  "safe_step s (Inl e) = (\<forall>x. e \<noteq> KeyError (Item x))"
  "safe_step s (Inr s') = grows s s'"
  by (simp_all add: safe_step_def)

lemma grows_refl: "held_in_lock_table s \<Longrightarrow> grows s s"
  by (simp add: grows_def)

lemma grows_trans: "grows s s1 \<Longrightarrow> grows s1 s2 \<Longrightarrow> grows s s2"
  by (auto simp: grows_def)

lemma grows_held: "grows s s1 \<Longrightarrow> held_in_lock_table s1"
  by (simp add: grows_def)

lemma grows_dom: "grows s s1 \<Longrightarrow> lock_table s i = Some a \<Longrightarrow> i \<in> dom (lock_table s1)"
  by (auto simp: grows_def)

lemma grows_upd_lock: "grows s s1 \<Longrightarrow> grows s (upd_lock a f s1)"
  by (simp add: grows_def held_in_lock_table_def)

lemma grows_install: "grows s s1 \<Longrightarrow> grows s (install i l s1)"
  by (auto simp: grows_def held_in_lock_table_def)

lemma grows_upd_txn:
  "grows s s1 \<Longrightarrow> set (locked_resources (f (txns s1 t))) \<subseteq> dom (lock_table s1) \<Longrightarrow>
   grows s (upd_txn t f s1)"
  by (auto simp: grows_def held_in_lock_table_def)

lemma grows_upd_txn_keep:
  "grows s s1 \<Longrightarrow> set (locked_resources (f (txns s1 t))) \<subseteq> set (locked_resources (txns s1 t)) \<Longrightarrow>
   grows s (upd_txn t f s1)"
  by (rule grows_upd_txn) (auto simp: grows_def held_in_lock_table_def)

lemma grows_same:
  "held_in_lock_table s \<Longrightarrow> txns s1 = txns s \<Longrightarrow> lock_table s1 = lock_table s \<Longrightarrow> grows s s1"
  by (simp add: grows_def held_in_lock_table_def)

lemma safe_after: "grows s s1 \<Longrightarrow> safe s1 r \<Longrightarrow> safe s r"
  by (auto simp: safe_def split: sum.splits intro: grows_trans)

lemma safe_db_after: "grows s s1 \<Longrightarrow> safe_db s1 r \<Longrightarrow> safe_db s r"
  by (auto simp: safe_db_def split: sum.splits intro: grows_trans)

lemma safe_step_after: "grows s s1 \<Longrightarrow> safe_step s1 r \<Longrightarrow> safe_step s r"
  by (auto simp: safe_step_def split: sum.splits intro: grows_trans)

lemma held_locked: "held_in_lock_table s \<Longrightarrow> set (locked_resources (txns s t)) \<subseteq> dom (lock_table s)"
  by (simp add: held_in_lock_table_def)

text \<open>
  By induction on the fuel, for any traversal order \<open>ord\<close> that yields only elements of
  the set it traverses.
\<close>

lemma safe_family:
  assumes ord_ok: "\<And>xs. set (ord xs) \<subseteq> set xs"
  shows
  "(\<forall>i u s r. held_in_lock_table s \<longrightarrow> get_read_lock ord n i u s = Some r \<longrightarrow> safe_lock i s r)
 \<and> (\<forall>i u s r. held_in_lock_table s \<longrightarrow> get_write_lock ord n i u s = Some r \<longrightarrow> safe_lock i s r)
 \<and> (\<forall>a u k s r. held_in_lock_table s \<longrightarrow> scan_read_holders ord n a u k s = Some r \<longrightarrow> safe_db s r)
 \<and> (\<forall>i u s r. held_in_lock_table s \<longrightarrow> read_item ord n i u s = Some r \<longrightarrow> safe s r)
 \<and> (\<forall>i u s r. held_in_lock_table s \<longrightarrow> write_item ord n i u s = Some r \<longrightarrow> safe s r)
 \<and> (\<forall>u s r. held_in_lock_table s \<longrightarrow> commit ord n u s = Some r \<longrightarrow> safe s r)
 \<and> (\<forall>u s r. held_in_lock_table s \<longrightarrow> abort ord n u s = Some r \<longrightarrow> safe s r)
 \<and> (\<forall>rs s r. held_in_lock_table s \<longrightarrow> set rs \<subseteq> dom (lock_table s) \<longrightarrow>
        restart_waiters ord n rs s = Some r \<longrightarrow> safe_db s r)
 \<and> (\<forall>u s r. held_in_lock_table s \<longrightarrow> restart ord n u s = Some r \<longrightarrow> safe s r)
 \<and> (\<forall>u s r. held_in_lock_table s \<longrightarrow> restart_loop ord n u s = Some r \<longrightarrow> safe s r)"
proof (induction n)
  case 0
  show ?case by simp
next
  case (Suc n)
  have ih_grl: "\<And>i u s r. held_in_lock_table s \<Longrightarrow> get_read_lock ord n i u s = Some r \<Longrightarrow> safe_lock i s r"
    using Suc.IH by fast
  have ih_gwl: "\<And>i u s r. held_in_lock_table s \<Longrightarrow> get_write_lock ord n i u s = Some r \<Longrightarrow> safe_lock i s r"
    using Suc.IH by fast
  have ih_scan: "\<And>a u k s r. held_in_lock_table s \<Longrightarrow> scan_read_holders ord n a u k s = Some r \<Longrightarrow> safe_db s r"
    using Suc.IH by fast
  have ih_read: "\<And>i u s r. held_in_lock_table s \<Longrightarrow> read_item ord n i u s = Some r \<Longrightarrow> safe s r"
    using Suc.IH by fast
  have ih_write: "\<And>i u s r. held_in_lock_table s \<Longrightarrow> write_item ord n i u s = Some r \<Longrightarrow> safe s r"
    using Suc.IH by fast
  have ih_commit: "\<And>u s r. held_in_lock_table s \<Longrightarrow> commit ord n u s = Some r \<Longrightarrow> safe s r"
    using Suc.IH by fast
  have ih_abort: "\<And>u s r. held_in_lock_table s \<Longrightarrow> abort ord n u s = Some r \<Longrightarrow> safe s r"
    using Suc.IH by fast
  have ih_rw: "\<And>rs s r. held_in_lock_table s \<Longrightarrow> set rs \<subseteq> dom (lock_table s) \<Longrightarrow>
        restart_waiters ord n rs s = Some r \<Longrightarrow> safe_db s r"
    using Suc.IH by fast
  have ih_restart: "\<And>u s r. held_in_lock_table s \<Longrightarrow> restart ord n u s = Some r \<Longrightarrow> safe s r"
    using Suc.IH by fast
  have ih_loop: "\<And>u s r. held_in_lock_table s \<Longrightarrow> restart_loop ord n u s = Some r \<Longrightarrow> safe s r"
    using Suc.IH by fast

  have wound: "safe_lock i s r"
    if h: "held_in_lock_table s" and a: "lock_table s i = Some a"
      and c: "res_bind (abort ord n v s) (\<lambda>(s1, _). Some (Inr (upd_lock a f s1, True))) = Some r"
    for i s r a v f
    using c
  proof (cases rule: res_bindE)
    case (raised e)
    with ih_abort [OF h raised(1)] show ?thesis by simp
  next
    case (returned x)
    obtain s1 b where x: "x = (s1, b)" by (cases x)
    from ih_abort [OF h returned(1)] x have g: "grows s s1" by simp
    from returned(2) x have "r = Inr (upd_lock a f s1, True)" by simp
    with g a show ?thesis by (simp add: grows_upd_lock grows_dom)
  qed

  have grl: "safe_lock i s r"
    if h: "held_in_lock_table s" and c: "get_read_lock ord (Suc n) i u s = Some r" for i u s r
  proof (cases "lock_table s i")
    case None
    with c h show ?thesis by (auto simp: grows_install grows_refl)
  next
    case (Some a)
    show ?thesis
    proof (cases "type (locks s a)")
      case UNLOCKED
      with c h Some show ?thesis by (auto simp: grows_install grows_refl)
    next
      case READ_LOCK
      with c h Some show ?thesis by (auto simp: grows_upd_lock grows_refl)
    next
      case WRITE_LOCK
      show ?thesis
      proof (cases "write_locked_by (locks s a)")
        case None
        with c Some WRITE_LOCK show ?thesis by auto
      next
        case (Some v)
        show ?thesis
        proof (cases "timestamp (txns s v) < timestamp (txns s u)")
          case True
          with c h \<open>lock_table s i = Some a\<close> WRITE_LOCK Some show ?thesis
            by (auto simp: grows_upd_lock grows_refl)
        next
          case False
          with c \<open>lock_table s i = Some a\<close> WRITE_LOCK Some
          show ?thesis by (auto intro: wound [OF h])
        qed
      qed
    qed
  qed

  have gwl: "safe_lock i s r"
    if h: "held_in_lock_table s" and c: "get_write_lock ord (Suc n) i u s = Some r" for i u s r
  proof (cases "lock_table s i")
    case None
    with c h show ?thesis by (auto simp: grows_install grows_refl)
  next
    case (Some a)
    show ?thesis
    proof (cases "type (locks s a)")
      case UNLOCKED
      with c h Some show ?thesis by (auto simp: grows_install grows_refl)
    next
      case READ_LOCK
      let ?k = "\<lambda>s1. let rl = read_locked_by (locks s1 a) in
              if rl = [] then
                Some (Inr (upd_lock a (\<lambda>l. l\<lparr>write_locked_by := Some u, type := WRITE_LOCK\<rparr>) s1, True))
              else if length rl = 1 \<and> rl ! 0 = u then
                Some (Inr (upd_lock a
                  (\<lambda>l. l\<lparr>write_locked_by := Some u, read_locked_by := [], type := WRITE_LOCK\<rparr>) s1, True))
              else
                Some (Inr (upd_lock a
                  (\<lambda>l. l\<lparr>waiting_transactions := waiting_transactions l @ [u]\<rparr>) s1, False))"
      from c Some READ_LOCK
      have "res_bind (scan_read_holders ord n a u 0 s) ?k = Some r" by simp
      then show ?thesis
      proof (cases rule: res_bindE)
        case (raised e)
        with ih_scan [OF h raised(1)] show ?thesis by simp
      next
        case (returned s1)
        from ih_scan [OF h returned(1)] have g: "grows s s1" by simp
        with returned(2) Some show ?thesis
          by (auto simp: Let_def grows_upd_lock grows_dom split: if_splits)
      qed
    next
      case WRITE_LOCK
      show ?thesis
      proof (cases "write_locked_by (locks s a)")
        case None
        with c Some WRITE_LOCK show ?thesis by auto
      next
        case (Some v)
        show ?thesis
        proof (cases "timestamp (txns s v) < timestamp (txns s u)")
          case True
          with c h \<open>lock_table s i = Some a\<close> WRITE_LOCK Some show ?thesis
            by (auto simp: grows_upd_lock grows_refl)
        next
          case False
          with c \<open>lock_table s i = Some a\<close> WRITE_LOCK Some
          show ?thesis by (auto intro: wound [OF h])
        qed
      qed
    qed
  qed

  have scan: "safe_db s r"
    if h: "held_in_lock_table s" and c: "scan_read_holders ord (Suc n) a u k s = Some r" for a u k s r
  proof -
    let ?rl = "read_locked_by (locks s a)"
    let ?h = "?rl ! k"
    show ?thesis
    proof (cases "k < length ?rl \<and> ?h \<noteq> u \<and> timestamp (txns s ?h) > timestamp (txns s u)")
      case True
      with c have "res_bind (abort ord n ?h s) (\<lambda>(s1, _). scan_read_holders ord n a u (Suc k) s1) = Some r"
        by (simp add: Let_def)
      then show ?thesis
      proof (cases rule: res_bindE)
        case (raised e)
        with ih_abort [OF h raised(1)] show ?thesis by simp
      next
        case (returned x)
        obtain s1 b where x: "x = (s1, b)" by (cases x)
        from ih_abort [OF h returned(1)] x have g: "grows s s1" by simp
        from returned(2) x have "scan_read_holders ord n a u (Suc k) s1 = Some r" by simp
        from ih_scan [OF grows_held [OF g] this] g show ?thesis by (rule safe_db_after [rotated])
      qed
    next
      case False
      with c have "r = Inr s \<or> scan_read_holders ord n a u (Suc k) s = Some r"
        by (auto simp: Let_def split: if_splits)
      with h show ?thesis by (auto simp: grows_refl dest: ih_scan [OF h])
    qed
  qed

  have rd: "safe s r"
    if h: "held_in_lock_table s" and c: "read_item ord (Suc n) i u s = Some r" for i u s r
  proof (cases "state (txns s u) = ACTIVE")
    case False
    with c h show ?thesis by (auto simp: grows_refl)
  next
    case True
    with c have "res_bind (get_read_lock ord n i u s) (\<lambda>(s1, granted).
        if \<not> granted then
          Some (Inr (upd_txn u (\<lambda>x. x\<lparr>waiting_ops := waiting_ops x @ [(''r'', i)],
                                      state := WAITING\<rparr>) s1, False))
        else
          Some (Inr (upd_txn u (\<lambda>x. x\<lparr>locked_resources := set_add i (locked_resources x)\<rparr>) s1, True)))
        = Some r" by simp
    then show ?thesis
    proof (cases rule: res_bindE)
      case (raised e)
      with ih_grl [OF h raised(1)] show ?thesis by simp
    next
      case (returned x)
      obtain s1 g where x: "x = (s1, g)" by (cases x)
      from ih_grl [OF h returned(1)] x
      have g: "grows s s1" and d: "g \<longrightarrow> i \<in> dom (lock_table s1)" by simp_all
      note sub = held_locked [OF grows_held [OF g], of u]
      show ?thesis
      proof (cases g)
        case True
        have "grows s (upd_txn u (\<lambda>x. x\<lparr>locked_resources := set_add i (locked_resources x)\<rparr>) s1)"
          using g by (rule grows_upd_txn) (use d sub True in simp)
        with returned(2) x True show ?thesis by auto
      next
        case False
        have "grows s (upd_txn u (\<lambda>x. x\<lparr>waiting_ops := waiting_ops x @ [(''r'', i)],
                                      state := WAITING\<rparr>) s1)"
          using g by (rule grows_upd_txn_keep) simp
        with returned(2) x False show ?thesis by auto
      qed
    qed
  qed

  have wr: "safe s r"
    if h: "held_in_lock_table s" and c: "write_item ord (Suc n) i u s = Some r" for i u s r
  proof (cases "state (txns s u) = ACTIVE")
    case False
    with c h show ?thesis by (auto simp: grows_refl)
  next
    case True
    with c have "res_bind (get_write_lock ord n i u s) (\<lambda>(s1, granted).
        if \<not> granted then
          Some (Inr (upd_txn u (\<lambda>x. x\<lparr>waiting_ops := waiting_ops x @ [(''w'', i)],
                                      state := WAITING\<rparr>) s1, False))
        else
          Some (Inr (upd_txn u (\<lambda>x. x\<lparr>locked_resources := set_add i (locked_resources x)\<rparr>) s1, True)))
        = Some r" by simp
    then show ?thesis
    proof (cases rule: res_bindE)
      case (raised e)
      with ih_gwl [OF h raised(1)] show ?thesis by simp
    next
      case (returned x)
      obtain s1 g where x: "x = (s1, g)" by (cases x)
      from ih_gwl [OF h returned(1)] x
      have g: "grows s s1" and d: "g \<longrightarrow> i \<in> dom (lock_table s1)" by simp_all
      note sub = held_locked [OF grows_held [OF g], of u]
      show ?thesis
      proof (cases g)
        case True
        have "grows s (upd_txn u (\<lambda>x. x\<lparr>locked_resources := set_add i (locked_resources x)\<rparr>) s1)"
          using g by (rule grows_upd_txn) (use d sub True in simp)
        with returned(2) x True show ?thesis by auto
      next
        case False
        have "grows s (upd_txn u (\<lambda>x. x\<lparr>waiting_ops := waiting_ops x @ [(''w'', i)],
                                      state := WAITING\<rparr>) s1)"
          using g by (rule grows_upd_txn_keep) simp
        with returned(2) x False show ?thesis by auto
      qed
    qed
  qed

  have cm: "safe s r"
    if h: "held_in_lock_table s" and c: "commit ord (Suc n) u s = Some r" for u s r
  proof (cases "state (txns s u) = ACTIVE")
    case False
    with c h show ?thesis by (auto intro!: grows_upd_txn_keep grows_refl)
  next
    case True
    show ?thesis
    proof (cases "unlock_all (ord (locked_resources (txns s u))) u s []")
      case (Inl e)
      with c True unlock_all_error [OF Inl] show ?thesis by auto
    next
      case (Inr p)
      obtain s1 us where p: "p = (s1, us)" by (cases p)
      let ?s2 = "upd_txn u (\<lambda>x. x\<lparr>state := COMMITTED\<rparr>) s1"
      from Inr p have un: "unlock_all (ord (locked_resources (txns s u))) u s [] = Inr (s1, us)" by simp
      note k = unlock_all_keeps [OF un]
      have g1: "grows s s1" using h k by (simp add: grows_same)
      have g2: "grows s ?s2" using g1 by (rule grows_upd_txn_keep) simp
      have sub: "set (ord (locked_resources (txns ?s2 u))) \<subseteq> dom (lock_table ?s2)"
        using ord_ok held_locked [OF grows_held [OF g2], of u] by blast
      from c True un
      have "res_bind (restart_waiters ord n (ord (locked_resources (txns ?s2 u))) ?s2)
              (\<lambda>s3. Some (Inr (upd_txn u (\<lambda>x. x\<lparr>locked_resources := []\<rparr>) s3, True))) = Some r"
        by (simp add: Let_def)
      then show ?thesis
      proof (cases rule: res_bindE)
        case (raised e)
        with ih_rw [OF grows_held [OF g2] sub raised(1)] show ?thesis by simp
      next
        case (returned s3)
        from ih_rw [OF grows_held [OF g2] sub returned(1)] have "grows ?s2 s3" by simp
        with g2 have "grows s s3" by (rule grows_trans)
        then have "grows s (upd_txn u (\<lambda>x. x\<lparr>locked_resources := []\<rparr>) s3)"
          by (rule grows_upd_txn_keep) simp
        with returned(2) show ?thesis by auto
      qed
    qed
  qed

  have ab: "safe s r"
    if h: "held_in_lock_table s" and c: "abort ord (Suc n) u s = Some r" for u s r
  proof (cases "state (txns s u) \<noteq> ACTIVE \<and> state (txns s u) \<noteq> WAITING")
    case True
    with c h show ?thesis by (auto simp: grows_refl)
  next
    case False
    show ?thesis
    proof (cases "unlock_all (ord (locked_resources (txns s u))) u s []")
      case (Inl e)
      with c False unlock_all_error [OF Inl] show ?thesis by auto
    next
      case (Inr p)
      obtain s1 us where p: "p = (s1, us)" by (cases p)
      let ?s2 = "upd_txn u (\<lambda>x. x\<lparr>state := ABORTED, locked_resources := [], waiting_ops := []\<rparr>) s1"
      from Inr p have un: "unlock_all (ord (locked_resources (txns s u))) u s [] = Inr (s1, us)" by simp
      note k = unlock_all_keeps [OF un]
      have g1: "grows s s1" using h k by (simp add: grows_same)
      have g2: "grows s ?s2" using g1 by (rule grows_upd_txn_keep) simp
      have sub: "set us \<subseteq> dom (lock_table ?s2)" using k by auto
      from c False un
      have "res_bind (restart_waiters ord n us ?s2) (\<lambda>s3. Some (Inr (s3, True))) = Some r"
        by (auto simp: Let_def)
      then show ?thesis
      proof (cases rule: res_bindE)
        case (raised e)
        with ih_rw [OF grows_held [OF g2] sub raised(1)] show ?thesis by simp
      next
        case (returned s3)
        from ih_rw [OF grows_held [OF g2] sub returned(1)] have "grows ?s2 s3" by simp
        with g2 have "grows s s3" by (rule grows_trans)
        with returned(2) show ?thesis by auto
      qed
    qed
  qed

  have rw: "safe_db s r"
    if h: "held_in_lock_table s" and sub: "set rs \<subseteq> dom (lock_table s)"
      and c: "restart_waiters ord (Suc n) rs s = Some r" for rs s r
  proof (cases rs)
    case Nil
    with c h show ?thesis by (auto simp: grows_refl)
  next
    case (Cons x rest)
    with sub obtain a where a: "lock_table s x = Some a" by auto
    from sub Cons have subr: "set rest \<subseteq> dom (lock_table s)" by simp
    show ?thesis
    proof (cases "waiting_transactions (locks s a)")
      case Nil
      with c Cons a have "restart_waiters ord n rest s = Some r" by simp
      from ih_rw [OF h subr this] show ?thesis .
    next
      case (Cons w ws)
      let ?s0 = "upd_lock a (\<lambda>l. l\<lparr>waiting_transactions := ws\<rparr>) s"
      have g0: "grows s ?s0" using h by (intro grows_upd_lock grows_refl)
      from c \<open>rs = x # rest\<close> a Cons
      have "res_bind (restart ord n w ?s0) (\<lambda>(s1, _). restart_waiters ord n rest s1) = Some r"
        by simp
      then show ?thesis
      proof (cases rule: res_bindE)
        case (raised e)
        with ih_restart [OF grows_held [OF g0] raised(1)] show ?thesis by simp
      next
        case (returned p)
        obtain s1 b where p: "p = (s1, b)" by (cases p)
        from ih_restart [OF grows_held [OF g0] returned(1)] p have "grows ?s0 s1" by simp
        with g0 have g1: "grows s s1" by (rule grows_trans)
        have sub1: "set rest \<subseteq> dom (lock_table s1)" using subr g1 by (auto simp: grows_def)
        from returned(2) p have "restart_waiters ord n rest s1 = Some r" by simp
        from ih_rw [OF grows_held [OF g1] sub1 this] g1 show ?thesis
          by (rule safe_db_after [rotated])
      qed
    qed
  qed

  have rs: "safe s r"
    if h: "held_in_lock_table s" and c: "restart ord (Suc n) u s = Some r" for u s r
  proof (cases "state (txns s u) = WAITING")
    case False
    with c h show ?thesis by (auto simp: grows_refl)
  next
    case True
    let ?s1 = "upd_txn u (\<lambda>x. x\<lparr>state := ACTIVE\<rparr>) s"
    have g: "grows s ?s1" using h by (intro grows_upd_txn_keep grows_refl) simp_all
    from c True have "restart_loop ord n u ?s1 = Some r" by simp
    from ih_loop [OF grows_held [OF g] this] g show ?thesis by (rule safe_after [rotated])
  qed

  have lp: "safe s r"
    if h: "held_in_lock_table s" and c: "restart_loop ord (Suc n) u s = Some r" for u s r
  proof (cases "state (txns s u) = ACTIVE \<and> waiting_ops (txns s u) \<noteq> []")
    case False
    with c h show ?thesis by (auto simp: grows_refl)
  next
    case True
    then obtain op i rest where ops: "waiting_ops (txns s u) = (op, i) # rest"
      by (cases "waiting_ops (txns s u)") auto
    let ?s0 = "upd_txn u (\<lambda>x. x\<lparr>waiting_ops := rest\<rparr>) s"
    let ?step = "if op = ''r'' then read_item ord n i u ?s0
              else if op = ''w'' then write_item ord n i u ?s0
              else if op = ''c'' then commit ord n u ?s0
              else Some (Inr (?s0, False))"
    have g0: "grows s ?s0" using h by (intro grows_upd_txn_keep grows_refl) simp_all
    note h0 = grows_held [OF g0]
    have st: "safe ?s0 r1" if "?step = Some r1" for r1
      using that h0
      by (auto split: if_splits dest: ih_read [OF h0] ih_write [OF h0] ih_commit [OF h0]
               simp: grows_refl)
    from c True ops
    have "res_bind ?step (\<lambda>(s1, _).
             if state (txns s1 u) = WAITING
             then Some (Inr (upd_txn u (\<lambda>x. x\<lparr>waiting_ops := (op, i) # waiting_ops x\<rparr>) s1, False))
             else restart_loop ord n u s1) = Some r"
      by (simp add: Let_def)
    then show ?thesis
    proof (cases rule: res_bindE)
      case (raised e)
      with st [OF raised(1)] show ?thesis by simp
    next
      case (returned p)
      obtain s1 b where p: "p = (s1, b)" by (cases p)
      from st [OF returned(1)] p have "grows ?s0 s1" by simp
      with g0 have g1: "grows s s1" by (rule grows_trans)
      show ?thesis
      proof (cases "state (txns s1 u) = WAITING")
        case True
        have "grows s (upd_txn u (\<lambda>x. x\<lparr>waiting_ops := (op, i) # waiting_ops x\<rparr>) s1)"
          using g1 by (rule grows_upd_txn_keep) simp
        with returned(2) p True show ?thesis by auto
      next
        case False
        with returned(2) p have "restart_loop ord n u s1 = Some r" by simp
        from ih_loop [OF grows_held [OF g1] this] g1 show ?thesis by (rule safe_after [rotated])
      qed
    qed
  qed
  show ?case
    by (intro conjI allI impI)
       (erule (1) grl gwl scan rd wr cm ab rs lp | erule (2) rw)+
qed

lemmas safe_read_item = safe_family [THEN conjunct2, THEN conjunct2, THEN conjunct2, THEN conjunct1, rule_format]

lemmas safe_write_item = safe_family [THEN conjunct2, THEN conjunct2, THEN conjunct2, THEN conjunct2, THEN conjunct1, rule_format]

lemmas safe_commit = safe_family [THEN conjunct2, THEN conjunct2, THEN conjunct2, THEN conjunct2, THEN conjunct2, THEN conjunct1, rule_format]

lemmas safe_abort = safe_family [THEN conjunct2, THEN conjunct2, THEN conjunct2, THEN conjunct2, THEN conjunct2, THEN conjunct2, THEN conjunct1, rule_format]

lemma safe_to_step:
  assumes "res_bind m (\<lambda>(s1, _). Some (Inr s1)) = Some r" and "\<And>r'. m = Some r' \<Longrightarrow> safe s r'"
  shows "safe_step s r"
  using assms(1)
proof (cases rule: res_bindE)
  case (raised e)
  with assms(2) [OF raised(1)] show ?thesis by simp
next
  case (returned x)
  with assms(2) [OF returned(1)] show ?thesis by (cases x) auto
qed

lemma held_initiate:
  "held_in_lock_table s \<Longrightarrow> grows s (fst (initiate_transaction i s))"
  by (auto simp: initiate_transaction_def grows_def held_in_lock_table_def new_Transaction_def)

lemma safe_execute_operation:
  assumes ord_ok: "\<And>xs. set (ord xs) \<subseteq> set xs" and h: "held_in_lock_table s"
    and c: "execute_operation ord n operation s = Some r"
  shows "safe_step s r"
proof -
  note rd = safe_read_item [of ord, OF ord_ok h]
  note wr = safe_write_item [of ord, OF ord_ok h]
  note cm = safe_commit [of ord, OF ord_ok h]
  show ?thesis
    using c h
    by (auto simp: execute_operation_def grows_refl held_initiate
             split: list.splits option.splits if_splits
             elim!: safe_to_step intro: rd wr cm)
qed

lemma safe_run_schedule:
  assumes ord_ok: "\<And>xs. set (ord xs) \<subseteq> set xs"
  shows "held_in_lock_table s \<Longrightarrow> run_schedule ord n ops s = Some r \<Longrightarrow> safe_step s r"
proof (induction ops arbitrary: s)
  case Nil
  then show ?case by (auto simp: grows_refl)
next
  case (Cons operation rest)
  show ?case
  proof (cases "operation = []")
    case True
    with Cons show ?thesis by simp
  next
    case False
    with Cons.prems(2)
    have "res_bind (execute_operation ord n operation s) (\<lambda>s1. run_schedule ord n rest s1) = Some r"
      by simp
    then show ?thesis
    proof (cases rule: res_bindE)
      case (raised e)
      with safe_execute_operation [OF ord_ok Cons.prems(1) raised(1)] show ?thesis by simp
    next
      case (returned s1)
      from safe_execute_operation [OF ord_ok Cons.prems(1) returned(1)] have g: "grows s s1" by simp
      from Cons.IH [OF grows_held [OF g] returned(2)] g show ?thesis
        by (rule safe_step_after [rotated])
    qed
  qed
qed

lemma held_empty_db: "held_in_lock_table (empty_db c)"
  by (simp add: held_in_lock_table_def empty_db_def new_Transaction_def)

section \<open>An abort that restarts no waiter changes no waiter queue\<close>





section \<open>The claims\<close>

text \<open>
  The schedules are in the format \<open>execute_operation\<close> reads: the operation letter, a
  one-digit id and, for reads and writes, the item at index 3. Where the code departs from
  a claim, the theorem below evaluates the code on a schedule that shows it. In those
  schedules no transaction holds more than one item when it commits or aborts, so the
  traversal order of \<open>locked_resources\<close> plays no role in them.
\<close>

subsection \<open>C1: waiters and holders\<close>

text \<open>
  C1, counterexample. After \<open>b1 b2 b3 r1(X) r3(X) w2(X)\<close> the scan of T2's write request
  stops at the older holder T1, T2 is queued on X, and the younger T3 (timestamp 3 against
  T2's 2) is still a read holder of X: T2 waits behind a younger transaction.
\<close>

theorem C1_counterexample:
  "observe (\<lambda>s. (lock_of s ''X'', timestamp (txns s 2), timestamp (txns s 3),
                  waiters_younger_than_holders s ''X''))
     (run_schedule (\<lambda>xs. xs) 30
        [''b1;'', ''b2;'', ''b3;'', ''r1(X);'', ''r3(X);'', ''w2(X);''] (empty_db 0))
   = Some (Inr (Some \<lparr>item = ''X'', type = READ_LOCK, read_locked_by = [1, 3],
                       waiting_transactions = [2], write_locked_by = None\<rparr>, 2, 3, False))"
  by code_simp

text \<open>
  C1, as the code has it. On a write-locked item, a read or write request is answered with
  WAIT exactly when the write holder is strictly older than the requester; the requester is
  then appended to the waiter queue and nothing else changes. So a transaction that starts
  to wait on a write lock waits behind a strictly older transaction. (For read-locked items
  nothing of this kind holds in general, as the counterexample shows.)
\<close>

theorem C1_enqueued_behind_older_write_holder:
  assumes "lock_table s i = Some a" and "type (locks s a) = WRITE_LOCK"
    and "write_locked_by (locks s a) = Some h"
  shows "(timestamp (txns s h) < timestamp (txns s t) \<longrightarrow>
            get_read_lock ord (Suc n) i t s = Some (Inr (enqueue a t s, False)) \<and>
            get_write_lock ord (Suc n) i t s = Some (Inr (enqueue a t s, False)))
       \<and> (get_read_lock ord m i t s = Some (Inr (s', False)) \<or>
          get_write_lock ord m i t s = Some (Inr (s', False)) \<longrightarrow>
            timestamp (txns s h) < timestamp (txns s t) \<and> s' = enqueue a t s)"
proof (intro conjI impI)
  assume "timestamp (txns s h) < timestamp (txns s t)"
  with assms show "get_read_lock ord (Suc n) i t s = Some (Inr (enqueue a t s, False))"
    and "get_write_lock ord (Suc n) i t s = Some (Inr (enqueue a t s, False))"
    by (simp_all add: enqueue_def)
next
  assume w: "get_read_lock ord m i t s = Some (Inr (s', False)) \<or>
             get_write_lock ord m i t s = Some (Inr (s', False))"
  then obtain k where m: "m = Suc k" by (cases m) auto
  show "timestamp (txns s h) < timestamp (txns s t)"
    using w assms m by (auto simp: res_bind_Inr split: if_splits)
  then show "s' = enqueue a t s"
    using w assms m by (auto simp: enqueue_def)
qed

text \<open>C1, witness: T2 requests X, write-locked by the older T1.\<close>

theorem C1_witness:
  "lock_table (state_after [''b1;'', ''b2;'', ''w1(X);'']) ''X'' = Some 0
   \<and> type (locks (state_after [''b1;'', ''b2;'', ''w1(X);'']) 0) = WRITE_LOCK
   \<and> write_locked_by (locks (state_after [''b1;'', ''b2;'', ''w1(X);'']) 0) = Some 1
   \<and> timestamp (txns (state_after [''b1;'', ''b2;'', ''w1(X);'']) 1)
       < timestamp (txns (state_after [''b1;'', ''b2;'', ''w1(X);'']) 2)
   \<and> get_read_lock (\<lambda>xs. xs) (Suc 0) ''X'' 2 (state_after [''b1;'', ''b2;'', ''w1(X);''])
       = Some (Inr (enqueue 0 2 (state_after [''b1;'', ''b2;'', ''w1(X);'']), False))
   \<and> get_write_lock (\<lambda>xs. xs) (Suc 0) ''X'' 2 (state_after [''b1;'', ''b2;'', ''w1(X);''])
       = Some (Inr (enqueue 0 2 (state_after [''b1;'', ''b2;'', ''w1(X);'']), False))"
proof -
  let ?s = "state_after [''b1;'', ''b2;'', ''w1(X);'']"
  have a: "lock_table ?s ''X'' = Some 0" by code_simp
  have b: "type (locks ?s 0) = WRITE_LOCK" by code_simp
  have c: "write_locked_by (locks ?s 0) = Some 1" by code_simp
  have d: "timestamp (txns ?s 1) < timestamp (txns ?s 2)" by code_simp
  show ?thesis
    using a b c d
      C1_enqueued_behind_older_write_holder [OF a b c, where t = 2 and ord = "\<lambda>xs. xs" and n = 0
        and m = "Suc 0" and s' = "enqueue 0 2 ?s"]
    by blast
qed

subsection \<open>C2: held resources and holders\<close>

text \<open>
  C2, the code at the failing input \<open>b1 b2 w2(X) w1(X) b3 r3(X)\<close>. T1 wounds T2 on X; the
  abort leaves the lock UNLOCKED and \<open>get_write_lock\<close> only sets \<open>write_locked_by\<close>, so the
  read of T3 finds X unlocked and installs a new lock. T1 is ACTIVE with X in its held
  resources, and the lock of X names T3 alone.
\<close>

theorem C2_held_resource_without_holder:
  "observe (\<lambda>s. (lock_of s ''X'', holds_what_it_lists s 1))
     (run_schedule (\<lambda>xs. xs) 30 [''b1;'', ''b2;'', ''w2(X);'', ''w1(X);''] (empty_db 0))
   = Some (Inr (Some \<lparr>item = ''X'', type = UNLOCKED, read_locked_by = [],
                       waiting_transactions = [], write_locked_by = Some 1\<rparr>, True))
   \<and> observe (\<lambda>s. (state (txns s 1), locked_resources (txns s 1), lock_of s ''X'',
                    holds_what_it_lists s 1))
     (run_schedule (\<lambda>xs. xs) 30
        [''b1;'', ''b2;'', ''w2(X);'', ''w1(X);'', ''b3;'', ''r3(X);''] (empty_db 0))
   = Some (Inr (ACTIVE, [''X''],
                Some \<lparr>item = ''X'', type = READ_LOCK, read_locked_by = [3],
                       waiting_transactions = [], write_locked_by = None\<rparr>, False))"
  by code_simp

subsection \<open>C3: the scan of the read holders\<close>

text \<open>
  C3, the code at the failing input \<open>b1 b2 b3 r2(X) r3(X) w1(X)\<close>. Both read holders of X
  are younger than T1. The scan aborts T2, which removes T2 from the list it is iterating
  over; the iterator's index then is past the end, T3 is never examined, and T1 waits.
\<close>

theorem C3_scan_skips_a_younger_holder:
  "observe (\<lambda>s. (lock_of s ''X'', map (\<lambda>t. timestamp (txns s t)) [1, 2, 3]))
     (run_schedule (\<lambda>xs. xs) 30 [''b1;'', ''b2;'', ''b3;'', ''r2(X);'', ''r3(X);''] (empty_db 0))
   = Some (Inr (Some \<lparr>item = ''X'', type = READ_LOCK, read_locked_by = [2, 3],
                       waiting_transactions = [], write_locked_by = None\<rparr>, [1, 2, 3]))
   \<and> observe (\<lambda>s. (map (\<lambda>t. state (txns s t)) [1, 2, 3], lock_of s ''X''))
     (run_schedule (\<lambda>xs. xs) 30
        [''b1;'', ''b2;'', ''b3;'', ''r2(X);'', ''r3(X);'', ''w1(X);''] (empty_db 0))
   = Some (Inr ([WAITING, ABORTED, ACTIVE],
                Some \<lparr>item = ''X'', type = READ_LOCK, read_locked_by = [3],
                       waiting_transactions = [1], write_locked_by = None\<rparr>))"
  by code_simp

subsection \<open>C4: restarts after commit\<close>

text \<open>
  C4, the code at the failing input \<open>b1 b2 b3 r1(X) r2(X) w3(X) e1\<close>. When T1 commits, X
  stays read-locked by T2, yet \<open>commit\<close> loops over all of \<open>txn.locked_resources\<close> (not over
  \<open>unlocked_resources\<close>, as \<open>abort\<close> does), pops T3 from the waiter queue of X and restarts
  it: T3 replays its write, blocks again, and its suspended write is now queued twice.
\<close>

theorem C4_commit_restarts_waiter_of_held_lock:
  "observe (\<lambda>s. (waiting_ops (txns s 3), lock_of s ''X''))
     (run_schedule (\<lambda>xs. xs) 30
        [''b1;'', ''b2;'', ''b3;'', ''r1(X);'', ''r2(X);'', ''w3(X);''] (empty_db 0))
   = Some (Inr ([(''w'', ''X'')],
                Some \<lparr>item = ''X'', type = READ_LOCK, read_locked_by = [1, 2],
                       waiting_transactions = [3], write_locked_by = None\<rparr>))
   \<and> observe (\<lambda>s. (map (\<lambda>t. state (txns s t)) [1, 2, 3], waiting_ops (txns s 3), lock_of s ''X''))
     (run_schedule (\<lambda>xs. xs) 30
        [''b1;'', ''b2;'', ''b3;'', ''r1(X);'', ''r2(X);'', ''w3(X);'', ''e1;''] (empty_db 0))
   = Some (Inr ([COMMITTED, ACTIVE, WAITING], [(''w'', ''X''), (''w'', ''X'')],
                Some \<lparr>item = ''X'', type = READ_LOCK, read_locked_by = [2],
                       waiting_transactions = [3], write_locked_by = None\<rparr>))"
  by code_simp

subsection \<open>C5: a second request by the write holder\<close>

text \<open>
  C5, the code at the failing inputs \<open>b1 w1(X) r1(X)\<close> and \<open>b1 w1(X) w1(X)\<close>. T1 is ACTIVE
  and holds the write lock on X. Its second request finds the write holder (T1 itself) not
  older than the requester and wounds it: T1 ends ABORTED.
\<close>

theorem C5_write_holder_wounds_itself:
  "observe (\<lambda>s. (state (txns s 1), lock_of s ''X''))
     (run_schedule (\<lambda>xs. xs) 30 [''b1;'', ''w1(X);''] (empty_db 0))
   = Some (Inr (ACTIVE, Some \<lparr>item = ''X'', type = WRITE_LOCK, read_locked_by = [],
                       waiting_transactions = [], write_locked_by = Some 1\<rparr>))
   \<and> observe (\<lambda>s. (state (txns s 1), lock_of s ''X''))
     (run_schedule (\<lambda>xs. xs) 30 [''b1;'', ''w1(X);'', ''r1(X);''] (empty_db 0))
   = Some (Inr (ABORTED, Some \<lparr>item = ''X'', type = READ_LOCK, read_locked_by = [1],
                       waiting_transactions = [], write_locked_by = None\<rparr>))
   \<and> observe (\<lambda>s. (state (txns s 1), lock_of s ''X''))
     (run_schedule (\<lambda>xs. xs) 30 [''b1;'', ''w1(X);'', ''w1(X);''] (empty_db 0))
   = Some (Inr (ABORTED, Some \<lparr>item = ''X'', type = UNLOCKED, read_locked_by = [],
                       waiting_transactions = [], write_locked_by = Some 1\<rparr>))"
  by code_simp

subsection \<open>C6: a second read by a read holder\<close>

text \<open>
  C6, the code at the failing input \<open>b1 r1(X) r1(X)\<close>. The second read appends T1 to
  \<open>read_locked_by\<close> again. \<open>unlock_item\<close> removes one entry only, so after \<open>e1\<close> the
  committed T1 is still a read holder and X stays read-locked.
\<close>

theorem C6_second_read_duplicates_holder:
  "observe (\<lambda>s. lock_of s ''X'')
     (run_schedule (\<lambda>xs. xs) 30 [''b1;'', ''r1(X);''] (empty_db 0))
   = Some (Inr (Some \<lparr>item = ''X'', type = READ_LOCK, read_locked_by = [1],
                       waiting_transactions = [], write_locked_by = None\<rparr>))
   \<and> observe (\<lambda>s. (state (txns s 1), lock_of s ''X''))
     (run_schedule (\<lambda>xs. xs) 30 [''b1;'', ''r1(X);'', ''r1(X);''] (empty_db 0))
   = Some (Inr (ACTIVE, Some \<lparr>item = ''X'', type = READ_LOCK, read_locked_by = [1, 1],
                       waiting_transactions = [], write_locked_by = None\<rparr>))
   \<and> observe (\<lambda>s. (state (txns s 1), lock_of s ''X''))
     (run_schedule (\<lambda>xs. xs) 30 [''b1;'', ''r1(X);'', ''r1(X);'', ''e1;''] (empty_db 0))
   = Some (Inr (COMMITTED, Some \<lparr>item = ''X'', type = READ_LOCK, read_locked_by = [1],
                       waiting_transactions = [], write_locked_by = None\<rparr>))"
  by code_simp

subsection \<open>C7: terminal transactions\<close>




subsection \<open>C8: operations on an id that was never begun\<close>

text \<open>
  C8, counterexample. A read, a write and an end for transaction 1, which was never begun:
  each raises KeyError at the lookup in the transaction table instead of being ignored.
\<close>

theorem C8_counterexample:
  "execute_operation (\<lambda>xs. xs) 30 ''r1(X);'' (empty_db 0) = Some (Inl (KeyError (Id 1)))
   \<and> execute_operation (\<lambda>xs. xs) 30 ''w1(X);'' (empty_db 0) = Some (Inl (KeyError (Id 1)))
   \<and> execute_operation (\<lambda>xs. xs) 30 ''e1;'' (empty_db 0) = Some (Inl (KeyError (Id 1)))"
  by (simp add: execute_operation_def digit_def empty_db_def)

text \<open>
  C8, as the code has it. A read, write or end whose id is not in the transaction table
  raises KeyError for that id at the lookup, before anything is changed (a read or write
  needs its item at index 3, else the IndexError comes first).
\<close>

theorem C8_unknown_id_raises_KeyError:
  assumes "digit d = Some i" and "i \<notin> transaction_table s"
    and "op = CHR ''r'' \<or> op = CHR ''w'' \<or> op = CHR ''e''"
    and "op \<noteq> CHR ''e'' \<longrightarrow> 2 \<le> length rest"
  shows "execute_operation ord n (op # d # rest) s = Some (Inl (KeyError (Id i)))"
  using assms by (auto simp: execute_operation_def)

text \<open>C8, witness: a write by T2 when only T1 has begun.\<close>

theorem C8_witness:
  "digit (CHR ''2'') = Some 2 \<and> 2 \<notin> transaction_table (state_after [''b1;''])
   \<and> execute_operation (\<lambda>xs. xs) 30 ''w2(Y);'' (state_after [''b1;'']) = Some (Inl (KeyError (Id 2)))"
proof -
  have a: "digit (CHR ''2'') = Some 2" by code_simp
  have b: "2 \<notin> transaction_table (state_after [''b1;''])" by code_simp
  show ?thesis
    using a b
      C8_unknown_id_raises_KeyError [OF a b, where op = "CHR ''w''" and rest = "''(Y);''"
        and ord = "\<lambda>xs. xs" and n = 30]
    by simp
qed

subsection \<open>C9: commit of a transaction that is not ACTIVE\<close>

text \<open>
  C9. In \<open>b1 b2 b3 r1(X) r2(X) w3(X) e1 e3 e2\<close> transaction T3 waits for X behind the
  readers T1 and T2. The commit of T1 restarts T3 although T2 still holds X (see C4): T3
  blocks again, and its suspended write is now queued twice. \<open>e3\<close> finds T3 WAITING and
  appends the commit marker: the queue of T3 is \<open>w X, w X, c\<close>. The commit of T2 unlocks X
  and restarts T3. The first replayed write is granted, the second finds T3 itself as write
  holder and aborts it (see C5), which empties the queue of T3: the marker is never
  replayed. Both replayed writes were granted (X is in the held resources of T3, and T3 is
  not WAITING), every other transaction has committed, and T3 ends ABORTED instead of
  COMMITTED.
\<close>

theorem C9_self_wound_discards_commit_marker:
  "observe (\<lambda>s. (state (txns s 3), waiting_ops (txns s 3)))
     (run_schedule (\<lambda>xs. xs) 30
        [''b1;'', ''b2;'', ''b3;'', ''r1(X);'', ''r2(X);'', ''w3(X);'', ''e1;'', ''e3;''] (empty_db 0))
   = Some (Inr (WAITING, [(''w'', ''X''), (''w'', ''X''), (''c'', '''')]))
   \<and> observe (\<lambda>s. (map (\<lambda>t. state (txns s t)) [1, 2, 3], waiting_ops (txns s 3),
                    locked_resources (txns s 3)))
     (run_schedule (\<lambda>xs. xs) 30
        [''b1;'', ''b2;'', ''b3;'', ''r1(X);'', ''r2(X);'', ''w3(X);'', ''e1;'', ''e3;'', ''e2;'']
        (empty_db 0))
   = Some (Inr ([COMMITTED, COMMITTED, ABORTED], [], [''X'']))"
  by code_simp

subsection \<open>C10: held items are keys of the lock table\<close>

text \<open>
  C10. For every traversal order that yields only elements of the traversed set: the empty
  tables satisfy \<open>held_in_lock_table\<close>; every schedule run from a state that satisfies it
  ends in a state that satisfies it, with no key of the lock table lost; no such run raises
  KeyError on an item; and from such a state neither \<open>commit\<close> nor \<open>abort\<close> raises any
  KeyError.
\<close>

theorem C10_held_items_have_lock_table_entries:
  assumes "\<forall>xs. set (ord xs) \<subseteq> set xs"
  shows "held_in_lock_table (empty_db c)
     \<and> (held_in_lock_table s \<and> run_schedule ord n ops s = Some (Inr s') \<longrightarrow>
          held_in_lock_table s' \<and> dom (lock_table s) \<subseteq> dom (lock_table s'))
     \<and> (held_in_lock_table s \<longrightarrow> run_schedule ord n ops s \<noteq> Some (Inl (KeyError (Item x))))
     \<and> (held_in_lock_table s \<longrightarrow> commit ord n t s \<noteq> Some (Inl (KeyError k))
                                  \<and> abort ord n t s \<noteq> Some (Inl (KeyError k)))"
proof -
  from assms have ord_ok: "\<And>xs. set (ord xs) \<subseteq> set xs" by simp
  have 1: "held_in_lock_table s' \<and> dom (lock_table s) \<subseteq> dom (lock_table s')"
    if "held_in_lock_table s" "run_schedule ord n ops s = Some (Inr s')"
    using safe_run_schedule [OF ord_ok that] by (simp add: grows_def)
  have 2: "run_schedule ord n ops s \<noteq> Some (Inl (KeyError (Item x)))" if "held_in_lock_table s"
    using safe_run_schedule [OF ord_ok that, of n ops "Inl (KeyError (Item x))"] by auto
  have 3: "commit ord n t s \<noteq> Some (Inl (KeyError k))" if "held_in_lock_table s"
    using safe_commit [of ord, OF ord_ok that, of n t "Inl (KeyError k)"] by auto
  have 4: "abort ord n t s \<noteq> Some (Inl (KeyError k))" if "held_in_lock_table s"
    using safe_abort [of ord, OF ord_ok that, of n t "Inl (KeyError k)"] by auto
  show ?thesis using held_empty_db 1 2 3 4 by blast
qed

text \<open>C10, witness: a schedule with two items, a wait, a deferred commit and a restart.\<close>

theorem C10_witness:
  "(\<forall>xs :: string list. set xs \<subseteq> set xs)
   \<and> held_in_lock_table (empty_db 0)
   \<and> (case run_schedule (\<lambda>xs. xs) 30 [''b1;'', ''b2;'', ''w1(X);'', ''r1(Y);'', ''w2(X);'', ''e2;'', ''e1;'']
             (empty_db 0) of
         Some (Inr s') \<Rightarrow> held_in_lock_table s' \<and> dom (lock_table (empty_db 0)) \<subseteq> dom (lock_table s')
       | _ \<Rightarrow> False)"
proof -
  let ?ops = "[''b1;'', ''b2;'', ''w1(X);'', ''r1(Y);'', ''w2(X);'', ''e2;'', ''e1;'']"
  have o: "\<forall>xs :: string list. set ((\<lambda>xs. xs) xs) \<subseteq> set xs" by simp
  have "case run_schedule (\<lambda>xs. xs) 30 ?ops (empty_db 0) of Some (Inr s') \<Rightarrow> True | _ \<Rightarrow> False"
    by code_simp
  then obtain s1 where r: "run_schedule (\<lambda>xs. xs) 30 ?ops (empty_db 0) = Some (Inr s1)"
    by (auto split: option.splits sum.splits)
  note th = C10_held_items_have_lock_table_entries [OF o, where c = 0 and s = "empty_db 0"
        and n = 30 and ops = ?ops and s' = s1]
  have 0: "held_in_lock_table (empty_db 0)" using th by blast
  have 1: "held_in_lock_table s1 \<and> dom (lock_table (empty_db 0)) \<subseteq> dom (lock_table s1)"
    using th r by blast
  show ?thesis
    unfolding r using 0 1 by simp
qed

end
